theory Spec2Isabelle
  imports Main "HOL-Library.Multiset"
begin

section \<open>JavaScript values and objects\<close>

text \<open>
  The records of \<^verbatim>\<open>app.js\<close> come from \<^verbatim>\<open>JSON.parse\<close>. The model covers the
  primitive values: \<^verbatim>\<open>null\<close>, booleans, integral numbers and strings, together with
  \<^verbatim>\<open>undefined\<close>, which is what reading a missing property yields. Numbers are the
  integers that a double holds exactly and prints in plain decimal digits; fractions,
  \<^verbatim>\<open>NaN\<close> and nested objects or arrays as field values are outside the model.
\<close>

datatype jsval = JUndefined | JNull | JBool bool | JNum int | JStr string

text \<open>Runtime failures. \<open>TypeError\<close> is JavaScript's own. \<open>PrototypeWrite\<close> marks the
  places where the model stops: a write that reaches the prototype accessor
  \<^verbatim>\<open>__proto__\<close> and replaces the prototype of a bucket table or of a record, whose
  further behaviour is not modelled.\<close>

datatype js_error = TypeError | PrototypeWrite

text \<open>An object is the list of its own properties in creation order.\<close>

type_synonym 'a props = "(string \<times> 'a) list"
type_synonym jsobj = "jsval props"
type_synonym jsref = nat
type_synonym heap = "jsref \<Rightarrow> jsobj"

text \<open>The change log written by \<^verbatim>\<open>writelog\<close>, one entry per line, with the data of
  the line instead of its text.\<close>

datatype log_entry =
    Consolidating nat string
  | Updating string jsval jsval
  | AddingKey string
  | NewerData string jsval jsval
  | DuplicatesRemain "jsval list"

type_synonym state = "heap \<times> log_entry list"

subsection \<open>Number to string and string to number\<close>

definition digit_char :: "nat \<Rightarrow> char" where
  "digit_char d = ''0123456789'' ! d"

fun show_nat :: "nat \<Rightarrow> string" where
  "show_nat n = (if n < 10 then [digit_char n] else show_nat (n div 10) @ [digit_char (n mod 10)])"

declare show_nat.simps [simp del]

definition show_int :: "int \<Rightarrow> string" where
  "show_int i = (if i < 0 then CHR ''-'' # show_nat (nat (- i)) else show_nat (nat i))"

definition digit_val :: "char \<Rightarrow> nat option" where
  "digit_val c =
     (let n = (of_char c :: nat) in if 48 \<le> n \<and> n \<le> 57 then Some (n - 48) else None)"

fun read_digits :: "nat \<Rightarrow> string \<Rightarrow> nat option" where
  "read_digits acc [] = Some acc"
| "read_digits acc (c # cs) =
     (case digit_val c of None \<Rightarrow> None | Some d \<Rightarrow> read_digits (10 * acc + d) cs)"

definition read_nat :: "string \<Rightarrow> nat option" where
  "read_nat s = (if s = [] then None else read_digits 0 s)"

text \<open>\<^verbatim>\<open>ToString\<close> of a primitive, which is also the property name it selects.\<close>

fun to_prop :: "jsval \<Rightarrow> string" where
  "to_prop JUndefined = ''undefined''"
| "to_prop JNull = ''null''"
| "to_prop (JBool b) = (if b then ''true'' else ''false'')"
| "to_prop (JNum i) = show_int i"
| "to_prop (JStr s) = s"

text \<open>\<^verbatim>\<open>ToNumber\<close> of a string, for the integer decimal literals: blanks around an
  optionally signed run of digits, the blank string being 0. \<open>None\<close> stands for
  \<^verbatim>\<open>NaN\<close> and for every number that is not an integer. Other spellings of integers
  (a fraction part, an exponent, a radix prefix) are outside the model.\<close>

definition js_blank :: "char \<Rightarrow> bool" where
  "js_blank c = (c \<in> set [CHR '' '', CHR 0x09, CHR 0x0A, CHR 0x0B, CHR 0x0C, CHR 0x0D])"

definition trim :: "string \<Rightarrow> string" where
  "trim s = rev (dropWhile js_blank (rev (dropWhile js_blank s)))"

definition str_to_num :: "string \<Rightarrow> int option" where
  "str_to_num s =
     (case trim s of
        [] \<Rightarrow> Some 0
      | c # cs \<Rightarrow>
          if c = CHR ''-'' then map_option (\<lambda>n. - int n) (read_nat cs)
          else if c = CHR ''+'' then map_option int (read_nat cs)
          else map_option int (read_nat (c # cs)))"

fun to_number :: "jsval \<Rightarrow> int option" where
  "to_number JUndefined = None"
| "to_number JNull = Some 0"
| "to_number (JBool b) = Some (if b then 1 else 0)"
| "to_number (JNum i) = Some i"
| "to_number (JStr s) = str_to_num s"

subsection \<open>The two equalities\<close>

text \<open>\<^verbatim>\<open>===\<close> (also the comparison of \<^verbatim>\<open>indexOf\<close>) is equality of values on this
  domain. \<^verbatim>\<open>==\<close> converts: \<^verbatim>\<open>null\<close> and \<^verbatim>\<open>undefined\<close> equal each other and
  nothing else, and numbers, booleans and strings of different types are compared as
  numbers.\<close>

datatype jstype = TUndefined | TNull | TBoolean | TNumber | TString

fun type_of :: "jsval \<Rightarrow> jstype" where
  "type_of JUndefined = TUndefined"
| "type_of JNull = TNull"
| "type_of (JBool b) = TBoolean"
| "type_of (JNum i) = TNumber"
| "type_of (JStr s) = TString"

definition nullish :: "jsval \<Rightarrow> bool" where
  "nullish v = (v = JUndefined \<or> v = JNull)"

definition loose_eq :: "jsval \<Rightarrow> jsval \<Rightarrow> bool" where
  "loose_eq v w =
     (if type_of v = type_of w then v = w
      else if nullish v \<or> nullish w then nullish v \<and> nullish w
      else (case (to_number v, to_number w) of (Some a, Some b) \<Rightarrow> a = b | _ \<Rightarrow> False))"

text \<open>\<^verbatim>\<open>Array.prototype.indexOf\<close>: the first position holding the value, or -1.\<close>

fun indexOf :: "jsval list \<Rightarrow> jsval \<Rightarrow> int" where
  "indexOf [] v = - 1"
| "indexOf (w # ws) v =
     (if w = v then 0 else (let i = indexOf ws v in if i = - 1 then - 1 else i + 1))"

subsection \<open>Own properties\<close>

definition has_own :: "'a props \<Rightarrow> string \<Rightarrow> bool" where
  "has_own ps k = (map_of ps k \<noteq> None)"

text \<open>Assignment \<^verbatim>\<open>o[k] = v\<close>: an existing property keeps its place, a new one is
  created last.\<close>

fun put_prop :: "'a props \<Rightarrow> string \<Rightarrow> 'a \<Rightarrow> 'a props" where
  "put_prop [] k v = [(k, v)]"
| "put_prop ((k', v') # ps) k v =
     (if k' = k then (k, v) # ps else (k', v') # put_prop ps k v)"

text \<open>Reading \<^verbatim>\<open>o[k]\<close> on a record: a missing own property reads as
  \<^verbatim>\<open>undefined\<close>. This is so for every name that is not a member of
  \<^verbatim>\<open>Object.prototype\<close>; the records are read under the configured keys and under
  \<^verbatim>\<open>entryDate\<close>, and the properties that quantify over the keys take them to be
  ordinary names (\<open>ordinary_keys\<close> below).\<close>

definition get_prop :: "jsobj \<Rightarrow> string \<Rightarrow> jsval" where
  "get_prop ob k = (case map_of ob k of None \<Rightarrow> JUndefined | Some v \<Rightarrow> v)"

text \<open>The order in which \<^verbatim>\<open>for (k in o)\<close> and \<^verbatim>\<open>Object.keys\<close> visit own
  properties: array indices (canonical decimal numbers below \<open>2^32 - 1\<close>) first, in
  ascending order, then every other name in creation order.\<close>

definition array_index :: "string \<Rightarrow> nat option" where
  "array_index s =
     (case read_nat s of
        None \<Rightarrow> None
      | Some n \<Rightarrow> if show_nat n = s \<and> int n < 4294967295 then Some n else None)"

definition enum_order :: "string list \<Rightarrow> string list" where
  "enum_order names =
     sort_key (\<lambda>s. the (array_index s)) (filter (\<lambda>s. array_index s \<noteq> None) names)
     @ filter (\<lambda>s. array_index s = None) names"

definition own_keys :: "'a props \<Rightarrow> string list" where
  "own_keys ps = enum_order (map fst ps)"

section \<open>The index: transformUsersToHashByKeys\<close>

type_synonym key_entry = "string \<times> jsval list"
type_synonym key_list = "key_entry props"
type_synonym bucket_table = "jsref list props"
type_synonym user_hash = "bucket_table props"

fun generateKeyList_loop :: "string list \<Rightarrow> key_list \<Rightarrow> key_list" where
  "generateKeyList_loop [] keyList = keyList"
| "generateKeyList_loop (k # ks) keyList = generateKeyList_loop ks (put_prop keyList k (k, []))"

definition generateKeyList :: "string list \<Rightarrow> key_list" where
  "generateKeyList keys = generateKeyList_loop keys []"

fun initUserHash_loop :: "string list \<Rightarrow> user_hash \<Rightarrow> user_hash" where
  "initUserHash_loop [] userHash = userHash"
| "initUserHash_loop (k # ks) userHash = initUserHash_loop ks (put_prop userHash k [])"

definition initUserHash :: "string list \<Rightarrow> user_hash" where
  "initUserHash keys = initUserHash_loop keys []"

text \<open>The body of the innermost loop once the comparison \<^verbatim>\<open>==\<close> succeeded: push the user
  onto the bucket named by its value, creating the bucket first when the table has no
  own property of that name. \<^verbatim>\<open>hasOwnProperty\<close> is a method that the table inherits:
  once a bucket of that name exists it is an own property and stands in the method's
  place, and the call is a \<open>TypeError\<close>. The table is an array, so \<^verbatim>\<open>length\<close> is
  always an own property and holds a number: calling \<^verbatim>\<open>push\<close> on it is a
  \<open>TypeError\<close> too.\<close>

definition push_user :: "bucket_table \<Rightarrow> jsval \<Rightarrow> jsref \<Rightarrow> js_error + bucket_table" where
  "push_user tbl v user =
     (let name = to_prop v in
      if has_own tbl ''hasOwnProperty'' then Inl TypeError
      else if name = ''length'' then Inl TypeError
      else if name = ''__proto__'' then Inl PrototypeWrite
      else (case map_of tbl name of
              Some bucket \<Rightarrow> Inr (put_prop tbl name (bucket @ [user]))
            | None \<Rightarrow> Inr (put_prop tbl name [user])))"

text \<open>\<^verbatim>\<open>for (var k in keyList[j].list)\<close>: every listed value that is \<^verbatim>\<open>==\<close> to the
  user's value pushes the user once.\<close>

fun push_matches :: "jsval list \<Rightarrow> jsval \<Rightarrow> jsref \<Rightarrow> bucket_table \<Rightarrow> js_error + bucket_table" where
  "push_matches [] v user tbl = Inr tbl"
| "push_matches (w # ws) v user tbl =
     (if loose_eq w v
      then (case push_user tbl v user of
              Inl e \<Rightarrow> Inl e
            | Inr tbl' \<Rightarrow> push_matches ws v user tbl')
      else push_matches ws v user tbl)"

text \<open>One turn of \<^verbatim>\<open>for (var j in keyList)\<close> for one user.\<close>

definition index_user_key ::
  "jsobj \<Rightarrow> jsref \<Rightarrow> string \<Rightarrow> key_list \<times> user_hash \<Rightarrow> js_error + key_list \<times> user_hash" where
  "index_user_key ob user j kh =
     (case map_of (fst kh) j of
        None \<Rightarrow> Inl TypeError
      | Some (key, lst) \<Rightarrow>
          let v = get_prop ob key;
              lst' = (if indexOf lst v = - 1 then lst @ [v] else lst);
              keyList' = put_prop (fst kh) j (key, lst')
          in (case map_of (snd kh) key of
                None \<Rightarrow> Inl TypeError
              | Some tbl \<Rightarrow>
                  (case push_matches lst' v user tbl of
                     Inl e \<Rightarrow> Inl e
                   | Inr tbl' \<Rightarrow> Inr (keyList', put_prop (snd kh) key tbl'))))"

fun index_user_keys ::
  "jsobj \<Rightarrow> jsref \<Rightarrow> string list \<Rightarrow> key_list \<times> user_hash \<Rightarrow> js_error + key_list \<times> user_hash" where
  "index_user_keys ob user [] kh = Inr kh"
| "index_user_keys ob user (j # js) kh =
     (case index_user_key ob user j kh of
        Inl e \<Rightarrow> Inl e
      | Inr kh' \<Rightarrow> index_user_keys ob user js kh')"

text \<open>\<^verbatim>\<open>for (var i in users)\<close>. An element that is \<^verbatim>\<open>undefined\<close> fails at the first
  read of \<^verbatim>\<open>user[...]\<close>, that is, as soon as there is a key to look at.\<close>

fun index_users ::
  "heap \<Rightarrow> jsref option list \<Rightarrow> key_list \<times> user_hash \<Rightarrow> js_error + key_list \<times> user_hash" where
  "index_users h [] kh = Inr kh"
| "index_users h (None # us) kh =
     (if own_keys (fst kh) = [] then index_users h us kh else Inl TypeError)"
| "index_users h (Some user # us) kh =
     (case index_user_keys (h user) user (own_keys (fst kh)) kh of
        Inl e \<Rightarrow> Inl e
      | Inr kh' \<Rightarrow> index_users h us kh')"

definition transformUsersToHashByKeys ::
  "jsref option list \<Rightarrow> string list \<Rightarrow> heap \<Rightarrow> js_error + user_hash" where
  "transformUsersToHashByKeys users keys h =
     (case index_users h users (generateKeyList keys, initUserHash keys) of
        Inl e \<Rightarrow> Inl e
      | Inr kh \<Rightarrow> Inr (snd kh))"

section \<open>The merge: consolidateDuplicates\<close>

text \<open>The call \<^verbatim>\<open>oldestRecord.hasOwnProperty(f)\<close>. The method is inherited; a record
  with an own field named \<^verbatim>\<open>hasOwnProperty\<close> holds a value in its place, and calling it
  is a \<open>TypeError\<close>.\<close>

definition call_hasOwnProperty :: "jsobj \<Rightarrow> string \<Rightarrow> js_error + bool" where
  "call_hasOwnProperty ob f =
     (if has_own ob ''hasOwnProperty'' then Inl TypeError else Inr (has_own ob f))"

text \<open>The assignment \<^verbatim>\<open>oldestRecord[f] = v\<close>. On a record without an own field
  \<^verbatim>\<open>__proto__\<close>, assigning to that name runs the prototype setter: a value that is
  neither an object nor \<^verbatim>\<open>null\<close> is ignored and no field is created; \<^verbatim>\<open>null\<close>
  removes the prototype, where the model stops.\<close>

definition assign_prop :: "jsobj \<Rightarrow> string \<Rightarrow> jsval \<Rightarrow> js_error + jsobj" where
  "assign_prop ob f v =
     (if f = ''__proto__'' \<and> \<not> has_own ob f
      then (if v = JNull then Inl PrototypeWrite else Inr ob)
      else Inr (put_prop ob f v))"

text \<open>One turn of \<^verbatim>\<open>for (var j in keys)\<close>: the field \<open>f\<close> of \<open>nextRecord\<close> against the
  oldest record. Both are read in the heap as it is now, since they may be the same
  object.\<close>

definition merge_field :: "jsref \<Rightarrow> jsref \<Rightarrow> string \<Rightarrow> state \<Rightarrow> js_error + state" where
  "merge_field oldest next f st =
     (let h = fst st; lg = snd st in
      case call_hasOwnProperty (h oldest) f of
        Inl e \<Rightarrow> Inl e
      | Inr own \<Rightarrow>
          if \<not> own
          then (case assign_prop (h oldest) f (get_prop (h next) f) of
                  Inl e \<Rightarrow> Inl e
                | Inr ob \<Rightarrow> Inr (h(oldest := ob), lg @ [AddingKey f]))
          else if get_prop (h next) f \<noteq> get_prop (h oldest) f
          then (case assign_prop (h oldest) f (get_prop (h next) f) of
                  Inl e \<Rightarrow> Inl e
                | Inr ob \<Rightarrow>
                    Inr (h(oldest := ob),
                         lg @ [NewerData f (get_prop (h oldest) f) (get_prop (h next) f)]))
          else Inr st)"

fun merge_fields :: "jsref \<Rightarrow> jsref \<Rightarrow> string list \<Rightarrow> state \<Rightarrow> js_error + state" where
  "merge_fields oldest next [] st = Inr st"
| "merge_fields oldest next (f # fs) st =
     (case merge_field oldest next f st of
        Inl e \<Rightarrow> Inl e
      | Inr st' \<Rightarrow> merge_fields oldest next fs st')"

text \<open>\<^verbatim>\<open>for (var i in dupes)\<close>; \<^verbatim>\<open>Object.keys(nextRecord)\<close> is taken when the turn
  starts.\<close>

fun merge_records :: "jsref \<Rightarrow> jsref list \<Rightarrow> state \<Rightarrow> js_error + state" where
  "merge_records oldest [] st = Inr st"
| "merge_records oldest (next # rest) st =
     (case merge_fields oldest next (own_keys (fst st next)) st of
        Inl e \<Rightarrow> Inl e
      | Inr st' \<Rightarrow> merge_records oldest rest st')"

text \<open>With no first element, \<^verbatim>\<open>oldestRecord\<close> is \<^verbatim>\<open>undefined\<close> and reading its key
  is a \<open>TypeError\<close>.\<close>

definition consolidateDuplicates :: "jsref list \<Rightarrow> string \<Rightarrow> state \<Rightarrow> js_error + jsref \<times> state" where
  "consolidateDuplicates dupes key st =
     (let st1 = (fst st, snd st @ [Consolidating (length dupes) key]) in
      case dupes of
        [] \<Rightarrow> Inl TypeError
      | oldestRecord # _ \<Rightarrow>
          let st2 = (fst st1, snd st1 @ [Updating key (get_prop (fst st1 oldestRecord) key)
                                           (get_prop (fst st1 oldestRecord) ''entryDate'')])
          in (case merge_records oldestRecord dupes st2 of
                Inl e \<Rightarrow> Inl e
              | Inr st' \<Rightarrow> Inr (oldestRecord, st')))"

section \<open>One pass: getConsolidatedUserList and getListOfDuplicateValues\<close>

text \<open>\<^verbatim>\<open>for (var k in hashByKey)\<close>: a bucket of more than one record contributes its
  merge, any other bucket its element 0, which is \<^verbatim>\<open>undefined\<close> for an empty
  bucket.\<close>

fun collect_buckets ::
  "bucket_table \<Rightarrow> string \<Rightarrow> string list \<Rightarrow> jsref option list \<times> state
     \<Rightarrow> js_error + jsref option list \<times> state" where
  "collect_buckets hashByKey key [] cs = Inr cs"
| "collect_buckets hashByKey key (k # ks) cs =
     (let bucket = (case map_of hashByKey k of None \<Rightarrow> [] | Some b \<Rightarrow> b) in
      if length bucket > 1
      then (case consolidateDuplicates bucket key (snd cs) of
              Inl e \<Rightarrow> Inl e
            | Inr (r, st') \<Rightarrow> collect_buckets hashByKey key ks (fst cs @ [Some r], st'))
      else collect_buckets hashByKey key ks
             (fst cs @ [case bucket of [] \<Rightarrow> None | r # _ \<Rightarrow> Some r], snd cs))"

text \<open>\<^verbatim>\<open>for (var j in keys)\<close>: the list is emptied again before each key's buckets are
  walked (\<^verbatim>\<open>var consolidatedUsers = []\<close> inside the loop). A key that the hash does
  not hold gives \<^verbatim>\<open>undefined\<close>, over which \<^verbatim>\<open>for in\<close> makes no turn.\<close>

fun collect_keys ::
  "user_hash \<Rightarrow> string list \<Rightarrow> jsref option list \<times> state \<Rightarrow> js_error + jsref option list \<times> state" where
  "collect_keys userHash [] cs = Inr cs"
| "collect_keys userHash (key # keys) cs =
     (let hashByKey = (case map_of userHash key of None \<Rightarrow> [] | Some t \<Rightarrow> t) in
      case collect_buckets hashByKey key (own_keys hashByKey) ([], snd cs) of
        Inl e \<Rightarrow> Inl e
      | Inr cs' \<Rightarrow> collect_keys userHash keys cs')"

text \<open>\<^verbatim>\<open>for (var i in userHash)\<close>: the walk over all keys is repeated once per property
  of the hash; \<open>i\<close> itself is not used.\<close>

fun collect_rounds ::
  "user_hash \<Rightarrow> string list \<Rightarrow> string list \<Rightarrow> jsref option list \<times> state
     \<Rightarrow> js_error + jsref option list \<times> state" where
  "collect_rounds userHash keys [] cs = Inr cs"
| "collect_rounds userHash keys (i # is) cs =
     (case collect_keys userHash keys cs of
        Inl e \<Rightarrow> Inl e
      | Inr cs' \<Rightarrow> collect_rounds userHash keys is cs')"

definition getConsolidatedUserList ::
  "user_hash \<Rightarrow> string list \<Rightarrow> state \<Rightarrow> js_error + jsref option list \<times> state" where
  "getConsolidatedUserList userHash keys st =
     collect_rounds userHash keys (own_keys userHash) ([], st)"

text \<open>The scan for values that are still duplicated: one list of seen values and one
  list of duplicates, both shared by all users and all keys.\<close>

fun scan_keys ::
  "heap \<Rightarrow> jsref option \<Rightarrow> string list \<Rightarrow> jsval list \<times> jsval list
     \<Rightarrow> js_error + jsval list \<times> jsval list" where
  "scan_keys h user [] ld = Inr ld"
| "scan_keys h None (key # keys) ld = Inl TypeError"
| "scan_keys h (Some u) (key # keys) ld =
     (let v = get_prop (h u) key in
      if indexOf (fst ld) v = - 1
      then scan_keys h (Some u) keys (fst ld @ [v], snd ld)
      else scan_keys h (Some u) keys (fst ld, snd ld @ [v]))"

fun scan_users ::
  "heap \<Rightarrow> jsref option list \<Rightarrow> string list \<Rightarrow> jsval list \<times> jsval list
     \<Rightarrow> js_error + jsval list \<times> jsval list" where
  "scan_users h [] keys ld = Inr ld"
| "scan_users h (user # users) keys ld =
     (case scan_keys h user keys ld of
        Inl e \<Rightarrow> Inl e
      | Inr ld' \<Rightarrow> scan_users h users keys ld')"

definition getListOfDuplicateValues ::
  "jsref option list \<Rightarrow> string list \<Rightarrow> heap \<Rightarrow> js_error + jsval list" where
  "getListOfDuplicateValues users keys h =
     (case scan_users h users keys ([], []) of
        Inl e \<Rightarrow> Inl e
      | Inr ld \<Rightarrow> Inr (snd ld))"

section \<open>The fixed point: getResolveDuplicates\<close>

text \<open>The function calls itself as long as the scan reports a value. A computation that
  never stops (in JavaScript: until the call stack is exhausted) is \<open>None\<close>. The result
  is the list that is written to \<^verbatim>\<open>consolidated-leads.json\<close>, with the heap that
  holds its records and the change log.\<close>

partial_function (option) getResolveDuplicates ::
  "jsref option list \<Rightarrow> string list \<Rightarrow> state \<Rightarrow> (js_error + jsref option list \<times> state) option" where
  "getResolveDuplicates users keys st =
     (case transformUsersToHashByKeys users keys (fst st) of
        Inl e \<Rightarrow> Some (Inl e)
      | Inr userHash \<Rightarrow>
          (case getConsolidatedUserList userHash keys st of
             Inl e \<Rightarrow> Some (Inl e)
           | Inr cs \<Rightarrow>
               (case getListOfDuplicateValues (fst cs) keys (fst (snd cs)) of
                  Inl e \<Rightarrow> Some (Inl e)
                | Inr duplicateValues \<Rightarrow>
                    if length duplicateValues > 0
                    then getResolveDuplicates (fst cs) keys
                           (fst (snd cs), snd (snd cs) @ [DuplicatesRemain duplicateValues])
                    else Some (Inr cs))))"

text \<open>The configured keys, and the program run on the records of the input file: the
  loader creates one object per record, here at the addresses \<open>0, 1, ...\<close>.\<close>

definition KEYS_WITH_DUPES :: "string list" where
  "KEYS_WITH_DUPES = [''_id'', ''email'']"

definition load_heap :: "jsobj list \<Rightarrow> heap" where
  "load_heap leads = (\<lambda>r. if r < length leads then leads ! r else [])"

definition load_users :: "jsobj list \<Rightarrow> jsref option list" where
  "load_users leads = map Some [0..<length leads]"

definition records_of :: "heap \<Rightarrow> jsref option list \<Rightarrow> jsobj option list" where
  "records_of h users = map (map_option h) users"

definition resolve :: "jsobj list \<Rightarrow> string list \<Rightarrow> (js_error + jsobj option list \<times> log_entry list) option" where
  "resolve leads keys =
     (case getResolveDuplicates (load_users leads) keys (load_heap leads, []) of
        None \<Rightarrow> None
      | Some (Inl e) \<Rightarrow> Some (Inl e)
      | Some (Inr cs) \<Rightarrow> Some (Inr (records_of (fst (snd cs)) (fst cs), snd (snd cs))))"

declare getResolveDuplicates.simps [code]

section \<open>Notions used to state the properties\<close>

subsection \<open>Results of a run\<close>

text \<open>The records of a finished run, without the heap and the log.\<close>

definition outcome_records ::
  "(js_error + jsobj option list \<times> log_entry list) option \<Rightarrow> (js_error + jsobj option list) option" where
  "outcome_records res = map_option (map_sum id fst) res"

text \<open>The number of passes of a run: one, and one more for every warning that duplicate
  values still exist, which is written exactly when the function calls itself.\<close>

fun is_remain :: "log_entry \<Rightarrow> bool" where
  "is_remain (DuplicatesRemain d) = True"
| "is_remain e = False"

definition pass_count :: "log_entry list \<Rightarrow> nat" where
  "pass_count lg = Suc (length (filter is_remain lg))"

definition run_passes ::
  "(js_error + jsobj option list \<times> log_entry list) option \<Rightarrow> (js_error + nat) option" where
  "run_passes res = map_option (map_sum id (\<lambda>x. pass_count (snd x))) res"

text \<open>Running the program again on the list and the objects that a run has left, with a
  fresh log.\<close>

definition rerun :: "jsobj list \<Rightarrow> string list \<Rightarrow> (js_error + jsobj option list \<times> log_entry list) option" where
  "rerun leads keys =
     (case getResolveDuplicates (load_users leads) keys (load_heap leads, []) of
        None \<Rightarrow> None
      | Some (Inl e) \<Rightarrow> Some (Inl e)
      | Some (Inr cs) \<Rightarrow>
          (case getResolveDuplicates (fst cs) keys (fst (snd cs), []) of
             None \<Rightarrow> None
           | Some (Inl e) \<Rightarrow> Some (Inl e)
           | Some (Inr cs') \<Rightarrow> Some (Inr (records_of (fst (snd cs')) (fst cs'), snd (snd cs')))))"

subsection \<open>The index and the candidate list\<close>

definition index_of_leads :: "jsobj list \<Rightarrow> string list \<Rightarrow> js_error + user_hash" where
  "index_of_leads leads keys = transformUsersToHashByKeys (load_users leads) keys (load_heap leads)"

definition table_of :: "user_hash \<Rightarrow> string \<Rightarrow> bucket_table" where
  "table_of userHash key = (case map_of userHash key of None \<Rightarrow> [] | Some t \<Rightarrow> t)"

definition bucket_at :: "bucket_table \<Rightarrow> string \<Rightarrow> jsref list" where
  "bucket_at tbl k = (case map_of tbl k of None \<Rightarrow> [] | Some b \<Rightarrow> b)"

definition buckets_of :: "bucket_table \<Rightarrow> jsref list list" where
  "buckets_of tbl = map (bucket_at tbl) (own_keys tbl)"

text \<open>The number of records held by the buckets of one key.\<close>

definition bucket_total :: "user_hash \<Rightarrow> string \<Rightarrow> nat" where
  "bucket_total userHash key = sum_list (map length (buckets_of (table_of userHash key)))"

definition index_total :: "jsobj list \<Rightarrow> string list \<Rightarrow> string \<Rightarrow> js_error + nat" where
  "index_total leads keys key = map_sum id (\<lambda>uh. bucket_total uh key) (index_of_leads leads keys)"

text \<open>What a bucket contributes to the candidate list: its first element, which is also
  the object that a merge returns.\<close>

definition bucket_head :: "jsref list \<Rightarrow> jsref option" where
  "bucket_head bucket = (case bucket of [] \<Rightarrow> None | r # _ \<Rightarrow> Some r)"

definition contributions :: "bucket_table \<Rightarrow> jsref option list" where
  "contributions tbl = map (\<lambda>k. bucket_head (bucket_at tbl k)) (own_keys tbl)"

definition last_key_contributions :: "user_hash \<Rightarrow> string list \<Rightarrow> jsref option list" where
  "last_key_contributions userHash keys =
     (if userHash = [] \<or> keys = [] then [] else contributions (table_of userHash (last keys)))"




subsection \<open>The merged record\<close>

definition fields_of :: "jsobj \<Rightarrow> string set" where
  "fields_of ob = fst ` set ob"

text \<open>The record a merge leaves behind, one of its values, and its set of fields.\<close>

definition merged_record :: "js_error + jsref \<times> state \<Rightarrow> js_error + jsobj" where
  "merged_record res = map_sum id (\<lambda>rs. fst (snd rs) (fst rs)) res"

definition merged_value :: "string \<Rightarrow> js_error + jsref \<times> state \<Rightarrow> js_error + jsval" where
  "merged_value f res = map_sum id (\<lambda>ob. get_prop ob f) (merged_record res)"

definition merged_fields :: "js_error + jsref \<times> state \<Rightarrow> js_error + string set" where
  "merged_fields res = map_sum id fields_of (merged_record res)"

text \<open>The object a merge returns together with the content, afterwards, of the cell
  \<open>x\<close>.\<close>

definition survivor_and_cell :: "jsref \<Rightarrow> js_error + jsref \<times> state \<Rightarrow> js_error + jsref \<times> jsobj" where
  "survivor_and_cell x res = map_sum id (\<lambda>rs. (fst rs, fst (snd rs) x)) res"

text \<open>The group members, other than the surviving object itself, that define a field,
  in bucket order; and the value of the last of them in that order, or the survivor's
  own value when there is none. A turn of the merge loop on the survivor itself compares
  it with itself and never differs from the accumulated state.\<close>

definition writers :: "heap \<Rightarrow> jsref \<Rightarrow> jsref list \<Rightarrow> string \<Rightarrow> jsref list" where
  "writers h oldest dupes f = filter (\<lambda>r. r \<noteq> oldest \<and> has_own (h r) f) dupes"

definition last_value :: "heap \<Rightarrow> jsref \<Rightarrow> jsref list \<Rightarrow> string \<Rightarrow> jsval" where
  "last_value h oldest dupes f =
     (if writers h oldest dupes f = [] then get_prop (h oldest) f
      else get_prop (h (last (writers h oldest dupes f))) f)"

text \<open>The merge of one field in the specification's words: the accumulator starts as the
  first record; every later record that has the field adds it when the accumulator lacks
  it and overwrites it when its value differs. \<open>None\<close> is a field the accumulator
  lacks.\<close>

fun last_write :: "heap \<Rightarrow> jsref \<Rightarrow> jsval option \<Rightarrow> jsref list \<Rightarrow> string \<Rightarrow> jsval option" where
  "last_write h oldest acc [] f = acc"
| "last_write h oldest acc (r # rs) f =
     (if r \<noteq> oldest \<and> has_own (h r) f \<and> acc \<noteq> Some (get_prop (h r) f)
      then last_write h oldest (Some (get_prop (h r) f)) rs f
      else last_write h oldest acc rs f)"

definition last_differing_value :: "heap \<Rightarrow> jsref \<Rightarrow> jsref list \<Rightarrow> string \<Rightarrow> jsval" where
  "last_differing_value h oldest dupes f =
     (case last_write h oldest (map_of (h oldest) f) dupes f of None \<Rightarrow> JUndefined | Some v \<Rightarrow> v)"

text \<open>Every other group member that defines the key holds the oldest record's value.\<close>

definition agree_on :: "heap \<Rightarrow> jsref \<Rightarrow> jsref list \<Rightarrow> string \<Rightarrow> bool" where
  "agree_on h oldest dupes k =
     list_all (\<lambda>x. \<not> has_own (h x) k \<or> get_prop (h x) k = get_prop (h oldest) k) dupes"

subsection \<open>Ordinary names\<close>

text \<open>The members of \<^verbatim>\<open>Object.prototype\<close>. A configured key is ordinary when it is
  none of them, so that reading it on a record yields the record's own value or
  \<^verbatim>\<open>undefined\<close>, and creating it in the key list and in the hash creates an own
  property.\<close>

definition prototype_members :: "string list" where
  "prototype_members =
     [''__proto__'', ''constructor'', ''hasOwnProperty'', ''isPrototypeOf'',
      ''propertyIsEnumerable'', ''toLocaleString'', ''toString'', ''valueOf'',
      ''__defineGetter__'', ''__defineSetter__'', ''__lookupGetter__'', ''__lookupSetter__'']"

definition ordinary_keys :: "string list \<Rightarrow> bool" where
  "ordinary_keys keys = list_all (\<lambda>k. k \<notin> set prototype_members) keys"

text \<open>A record has ordinary fields when none of them is named \<^verbatim>\<open>hasOwnProperty\<close> or
  \<^verbatim>\<open>__proto__\<close>, the two names on which the merge does not treat a field as a
  field.\<close>

definition ordinary_field :: "string \<Rightarrow> bool" where
  "ordinary_field f = (f \<noteq> ''hasOwnProperty'' \<and> f \<noteq> ''__proto__'')"

definition ordinary_fields :: "jsobj \<Rightarrow> bool" where
  "ordinary_fields ob = list_all ordinary_field (map fst ob)"

definition ordinary_group :: "heap \<Rightarrow> jsref list \<Rightarrow> bool" where
  "ordinary_group h rs = list_all (\<lambda>r. ordinary_fields (h r)) rs"


subsection \<open>Identifying values of a list of records\<close>

text \<open>All identifying values of a list of records, record by record and key by key: the
  sequence that the scan for remaining duplicates walks through. A column is the
  sequence of values of one key.\<close>

definition key_values :: "heap \<Rightarrow> jsref list \<Rightarrow> string list \<Rightarrow> jsval list" where
  "key_values h rs keys = concat (map (\<lambda>r. map (get_prop (h r)) keys) rs)"

definition column :: "heap \<Rightarrow> jsref list \<Rightarrow> string \<Rightarrow> jsval list" where
  "column h rs key = map (\<lambda>r. get_prop (h r) key) rs"

definition refs_of :: "jsref option list \<Rightarrow> jsref list" where
  "refs_of users = concat (map (\<lambda>u. case u of None \<Rightarrow> [] | Some r \<Rightarrow> [r]) users)"

text \<open>Two values of one key can be told apart by the index when they have different
  property names and \<^verbatim>\<open>==\<close> needs no conversion to separate them: they have the same
  type, or exactly one of them is \<^verbatim>\<open>null\<close> or \<^verbatim>\<open>undefined\<close>. A column is plain
  when all its values can be told apart in this way and none of them names the
  \<^verbatim>\<open>length\<close>, the prototype or the method \<^verbatim>\<open>hasOwnProperty\<close> of the bucket
  table.\<close>

definition separable :: "jsval \<Rightarrow> jsval \<Rightarrow> bool" where
  "separable v w =
     (v = w \<or> (to_prop v \<noteq> to_prop w \<and> (type_of v = type_of w \<or> nullish v \<noteq> nullish w)))"

definition plain_name :: "string \<Rightarrow> bool" where
  "plain_name s = (s \<noteq> ''length'' \<and> s \<noteq> ''__proto__'' \<and> s \<noteq> ''hasOwnProperty'')"

definition plain_column :: "jsval list \<Rightarrow> bool" where
  "plain_column vs =
     (list_all (\<lambda>v. plain_name (to_prop v)) vs \<and> list_all (\<lambda>v. list_all (separable v) vs) vs)"

definition plain_records :: "heap \<Rightarrow> jsref list \<Rightarrow> string list \<Rightarrow> bool" where
  "plain_records h rs keys = list_all (\<lambda>key. plain_column (column h rs key)) keys"

text \<open>No two records of the list hold the same value for a key.\<close>

definition no_duplicate_groups :: "heap \<Rightarrow> jsref option list \<Rightarrow> string list \<Rightarrow> bool" where
  "no_duplicate_groups h users keys = list_all (\<lambda>k. distinct (column h (refs_of users) k)) keys"

subsection \<open>Auxiliary notions of the proofs\<close>

text \<open>The merge when no call fails: what one turn, one record and one bucket write.\<close>

definition write_field :: "jsref \<Rightarrow> jsref \<Rightarrow> string \<Rightarrow> state \<Rightarrow> state" where
  "write_field oldest next f st =
     (let h = fst st; lg = snd st in
      if \<not> has_own (h oldest) f
      then (h(oldest := put_prop (h oldest) f (get_prop (h next) f)), lg @ [AddingKey f])
      else if get_prop (h next) f \<noteq> get_prop (h oldest) f
      then (h(oldest := put_prop (h oldest) f (get_prop (h next) f)),
            lg @ [NewerData f (get_prop (h oldest) f) (get_prop (h next) f)])
      else st)"

fun write_fields :: "jsref \<Rightarrow> jsref \<Rightarrow> string list \<Rightarrow> state \<Rightarrow> state" where
  "write_fields oldest next [] st = st"
| "write_fields oldest next (f # fs) st = write_fields oldest next fs (write_field oldest next f st)"

fun write_records :: "jsref \<Rightarrow> jsref list \<Rightarrow> state \<Rightarrow> state" where
  "write_records oldest [] st = st"
| "write_records oldest (next # rest) st =
     write_records oldest rest (write_fields oldest next (own_keys (fst st next)) st)"

text \<open>The bucket table of a key in which every record has a bucket of its own.\<close>

definition singles :: "heap \<Rightarrow> string \<Rightarrow> jsref list \<Rightarrow> bucket_table" where
  "singles h k p = map (\<lambda>r. (to_prop (get_prop (h r) k), [r])) p"

definition good_column :: "jsval list \<Rightarrow> bool" where
  "good_column vs =
     (distinct (map to_prop vs) \<and> (\<forall>v\<in>set vs. plain_name (to_prop v))
      \<and> (\<forall>v\<in>set vs. \<forall>w\<in>set vs. v \<noteq> w \<longrightarrow> \<not> loose_eq w v))"

text \<open>The property names that a list of keys creates, in creation order.\<close>

fun add_keys :: "string list \<Rightarrow> string list \<Rightarrow> string list" where
  "add_keys K [] = K"
| "add_keys K (k # ks) = add_keys (if k \<in> set K then K else K @ [k]) ks"

text \<open>The state of the index loop after the records \<open>p\<close>, when these are all
  different under every key.\<close>

definition index_inv :: "heap \<Rightarrow> string list \<Rightarrow> jsref list \<Rightarrow> key_list \<times> user_hash \<Rightarrow> bool" where
  "index_inv h K p kh =
     (map fst (fst kh) = K \<and> map fst (snd kh) = K
      \<and> (\<forall>k\<in>set K. map_of (fst kh) k = Some (k, column h p k)
                     \<and> map_of (snd kh) k = Some (singles h k p)))"

text \<open>The scan on the sequence of values alone.\<close>

fun scan_vals :: "jsval list \<Rightarrow> jsval list \<times> jsval list \<Rightarrow> jsval list \<times> jsval list" where
  "scan_vals [] ld = ld"
| "scan_vals (v # vs) ld =
     (if indexOf (fst ld) v = - 1 then scan_vals vs (fst ld @ [v], snd ld)
      else scan_vals vs (fst ld, snd ld @ [v]))"

text \<open>The order in which a pass returns records that are all different under key \<open>k\<close>:
  the enumeration order of their bucket names.\<close>

definition pass_order :: "heap \<Rightarrow> string \<Rightarrow> jsref list \<Rightarrow> jsref list" where
  "pass_order h k rs =
     map (\<lambda>n. hd (bucket_at (singles h k rs) n)) (enum_order (map to_prop (column h rs k)))"

subsection \<open>Sample inputs\<close>

definition scenario_A_leads :: "jsobj list" where
  "scenario_A_leads =
     [[(''_id'', JNum 1), (''email'', JStr ''a@x.com''), (''entryDate'', JStr ''2020-01-01''),
       (''name'', JStr ''Al'')],
      [(''_id'', JNum 1), (''email'', JStr ''a@x.com''), (''entryDate'', JStr ''2021-01-01''),
       (''name'', JStr ''Alice'')]]"

text \<open>The records of Scenario A, the newer one first.\<close>

definition newest_first_leads :: "jsobj list" where
  "newest_first_leads =
     [[(''_id'', JNum 1), (''email'', JStr ''a@x.com''), (''entryDate'', JStr ''2021-01-01''),
       (''name'', JStr ''Alice'')],
      [(''_id'', JNum 1), (''email'', JStr ''a@x.com''), (''entryDate'', JStr ''2020-01-01''),
       (''name'', JStr ''Al'')]]"

text \<open>Two records without any duplicate.\<close>

definition two_leads :: "jsobj list" where
  "two_leads =
     [[(''_id'', JStr ''p''), (''email'', JStr ''a@x.com''), (''entryDate'', JStr ''2020-01-01'')],
      [(''_id'', JStr ''q''), (''email'', JStr ''b@x.com''), (''entryDate'', JStr ''2021-01-01'')]]"

text \<open>A group of two records with the same \<^verbatim>\<open>_id\<close> and different addresses.\<close>

definition group_leads :: "jsobj list" where
  "group_leads =
     [[(''_id'', JNum 1), (''email'', JStr ''old@x.com''), (''entryDate'', JStr ''2020-01-01'')],
      [(''_id'', JNum 1), (''email'', JStr ''new@x.com''), (''entryDate'', JStr ''2021-01-01''),
       (''phone'', JStr ''555'')]]"

text \<open>The \<^verbatim>\<open>_id\<close> of the first record is the \<^verbatim>\<open>email\<close> of the second.\<close>

definition cross_key_leads :: "jsobj list" where
  "cross_key_leads =
     [[(''_id'', JStr ''x''), (''email'', JStr ''a@x.com''), (''entryDate'', JStr ''2020-01-01'')],
      [(''_id'', JStr ''b''), (''email'', JStr ''x''), (''entryDate'', JStr ''2021-01-01'')]]"

text \<open>The same \<^verbatim>\<open>_id\<close>, once as a string and once as a number.\<close>

definition mixed_id_leads :: "jsobj list" where
  "mixed_id_leads =
     [[(''_id'', JStr ''1''), (''email'', JStr ''a@x.com''), (''entryDate'', JStr ''2020-01-01'')],
      [(''_id'', JNum 1), (''email'', JStr ''b@x.com''), (''entryDate'', JStr ''2021-01-01'')]]"

text \<open>Two pairs of equal records, whose \<^verbatim>\<open>_id\<close> is the number 1 in the first pair and
  the string \<^verbatim>\<open>"1"\<close> in the second.\<close>

definition mixed_pairs_leads :: "jsobj list" where
  "mixed_pairs_leads =
     [[(''_id'', JNum 1), (''email'', JStr ''x@x.com''), (''entryDate'', JStr ''2020-01-01'')],
      [(''_id'', JNum 1), (''email'', JStr ''x@x.com''), (''entryDate'', JStr ''2020-01-01'')],
      [(''_id'', JStr ''1''), (''email'', JStr ''y@x.com''), (''entryDate'', JStr ''2021-01-01'')],
      [(''_id'', JStr ''1''), (''email'', JStr ''y@x.com''), (''entryDate'', JStr ''2021-01-01'')]]"

text \<open>No duplicates, and addresses that are array indices, the larger one first.\<close>

definition numbered_leads :: "jsobj list" where
  "numbered_leads =
     [[(''_id'', JStr ''a''), (''email'', JNum 2), (''entryDate'', JStr ''2020-01-01'')],
      [(''_id'', JStr ''b''), (''email'', JNum 1), (''entryDate'', JStr ''2021-01-01'')]]"

text \<open>Scenario A with a field named \<^verbatim>\<open>__proto__\<close> on the newer record.\<close>

definition proto_leads :: "jsobj list" where
  "proto_leads =
     [[(''_id'', JNum 1), (''email'', JStr ''a@x.com''), (''entryDate'', JStr ''2020-01-01'')],
      [(''_id'', JNum 1), (''email'', JStr ''a@x.com''), (''entryDate'', JStr ''2021-01-01''),
       (''__proto__'', JNum 5)]]"

text \<open>Scenario A with a field named \<^verbatim>\<open>hasOwnProperty\<close> on the older record.\<close>

definition shadow_leads :: "jsobj list" where
  "shadow_leads =
     [[(''_id'', JNum 1), (''email'', JStr ''a@x.com''), (''entryDate'', JStr ''2020-01-01''),
       (''hasOwnProperty'', JBool True)],
      [(''_id'', JNum 1), (''email'', JStr ''a@x.com''), (''entryDate'', JStr ''2021-01-01''),
       (''name'', JStr ''Alice'')]]"

section \<open>Lemmas\<close>

subsection \<open>Properties and their enumeration\<close>

lemma has_own_iff: "has_own ps k \<longleftrightarrow> k \<in> fst ` set ps"
  by (simp add: has_own_def map_of_eq_None_iff)

lemma map_of_put_prop: "map_of (put_prop ps k v) = (map_of ps)(k \<mapsto> v)"
  by (induction ps) (auto simp: fun_eq_iff)

lemma get_prop_put_prop:
  "get_prop (put_prop ob k v) k' = (if k' = k then v else get_prop ob k')"
  by (simp add: get_prop_def map_of_put_prop)

lemma fields_of_dom: "fields_of ob = dom (map_of ob)"
  by (simp add: fields_of_def dom_map_of_conv_image_fst)

lemma fields_of_put_prop: "fields_of (put_prop ob k v) = insert k (fields_of ob)"
  by (simp add: fields_of_dom map_of_put_prop)

lemma map_fst_put_prop:
  "map fst (put_prop ps k v) = (if k \<in> fst ` set ps then map fst ps else map fst ps @ [k])"
  by (induction ps) (auto simp: rev_image_eqI)

lemma set_enum_order: "set (enum_order ns) = set ns"
  by (auto simp: enum_order_def)

lemma set_own_keys: "set (own_keys ps) = fst ` set ps"
  by (simp add: own_keys_def set_enum_order)

lemma set_own_keys_fields: "set (own_keys ob) = fields_of ob"
  by (simp add: set_own_keys fields_of_def)

lemma has_own_fields: "has_own ob f \<longleftrightarrow> f \<in> fields_of ob"
  by (simp add: has_own_iff fields_of_def)

lemma write_field_frame: "x \<noteq> oldest \<Longrightarrow> fst (write_field oldest next f st) x = fst st x"
  by (simp add: write_field_def Let_def)

lemma write_field_self:
  "has_own (fst st oldest) f \<Longrightarrow> write_field oldest oldest f st = st"
  by (simp add: write_field_def Let_def)

lemma write_field_value:
  "next \<noteq> oldest \<Longrightarrow>
   get_prop (fst (write_field oldest next f st) oldest) g =
     (if g = f then get_prop (fst st next) f else get_prop (fst st oldest) g)"
  by (simp add: write_field_def Let_def get_prop_put_prop)

lemma write_field_fields:
  "fields_of (fst (write_field oldest next f st) oldest) = insert f (fields_of (fst st oldest))"
  by (auto simp: write_field_def Let_def fields_of_put_prop has_own_fields)

lemma write_fields_frame: "x \<noteq> oldest \<Longrightarrow> fst (write_fields oldest next fs st) x = fst st x"
  by (induction fs arbitrary: st) (simp_all add: write_field_frame)

lemma write_fields_self:
  "set fs \<subseteq> fields_of (fst st oldest) \<Longrightarrow> write_fields oldest oldest fs st = st"
  by (induction fs arbitrary: st) (simp_all add: write_field_self has_own_fields)

lemma write_fields_value:
  "next \<noteq> oldest \<Longrightarrow>
   get_prop (fst (write_fields oldest next fs st) oldest) g =
     (if g \<in> set fs then get_prop (fst st next) g else get_prop (fst st oldest) g)"
  by (induction fs arbitrary: st) (auto simp: write_field_value write_field_frame)

lemma write_fields_fields:
  "fields_of (fst (write_fields oldest next fs st) oldest) = fields_of (fst st oldest) \<union> set fs"
  by (induction fs arbitrary: st) (auto simp: write_field_fields)

lemma write_records_frame: "x \<noteq> oldest \<Longrightarrow> fst (write_records oldest rs st) x = fst st x"
  by (induction rs arbitrary: st) (simp_all add: write_fields_frame)

lemma writers_cong:
  "(\<And>x. x \<noteq> oldest \<Longrightarrow> h' x = h x) \<Longrightarrow> writers h' oldest rs f = writers h oldest rs f"
  unfolding writers_def by (rule filter_cong) auto

lemma writers_not_oldest: "writers h oldest rs f \<noteq> [] \<Longrightarrow> last (writers h oldest rs f) \<noteq> oldest"
proof -
  assume "writers h oldest rs f \<noteq> []"
  then have "last (writers h oldest rs f) \<in> set (writers h oldest rs f)" by simp
  then show ?thesis by (simp add: writers_def)
qed

lemma write_records_value:
  "get_prop (fst (write_records oldest rs st) oldest) f =
     (if writers (fst st) oldest rs f = [] then get_prop (fst st oldest) f
      else get_prop (fst st (last (writers (fst st) oldest rs f))) f)"
proof (induction rs arbitrary: st)
  case Nil
  then show ?case by (simp add: writers_def)
next
  case (Cons r rs)
  let ?st1 = "write_fields oldest r (own_keys (fst st r)) st"
  show ?case
  proof (cases "r = oldest")
    case True
    then have "?st1 = st"
      by (simp add: write_fields_self set_own_keys_fields)
    with Cons.IH[of st] True show ?thesis by (simp add: writers_def)
  next
    case False
    have fr: "\<And>x. x \<noteq> oldest \<Longrightarrow> fst ?st1 x = fst st x"
      by (simp add: write_fields_frame)
    have w: "writers (fst ?st1) oldest rs f = writers (fst st) oldest rs f"
      by (rule writers_cong) (rule fr)
    have v: "get_prop (fst ?st1 oldest) f =
        (if has_own (fst st r) f then get_prop (fst st r) f else get_prop (fst st oldest) f)"
      using False by (simp add: write_fields_value set_own_keys_fields has_own_fields)
    show ?thesis
    proof (cases "writers (fst st) oldest rs f = []")
      case True
      with Cons.IH[of ?st1] w v False show ?thesis
        by (simp add: writers_def)
    next
      case nonempty: False
      then have "last (writers (fst st) oldest rs f) \<noteq> oldest"
        by (rule writers_not_oldest)
      with Cons.IH[of ?st1] w nonempty fr False show ?thesis
        by (simp add: writers_def)
    qed
  qed
qed

lemma write_records_fields:
  "fields_of (fst (write_records oldest rs st) oldest) =
     fields_of (fst st oldest) \<union> (\<Union>r\<in>set rs. fields_of (fst st r))"
proof (induction rs arbitrary: st)
  case Nil
  then show ?case by simp
next
  case (Cons r rs)
  let ?st1 = "write_fields oldest r (own_keys (fst st r)) st"
  have f1: "fields_of (fst ?st1 oldest) = fields_of (fst st oldest) \<union> fields_of (fst st r)"
    by (simp add: write_fields_fields set_own_keys_fields)
  have fr: "\<And>x. x \<noteq> oldest \<Longrightarrow> fst ?st1 x = fst st x"
    by (simp add: write_fields_frame)
  have up: "fields_of (fst ?st1 x) \<subseteq> fields_of (fst st x) \<union> fields_of (fst st r)" for x
    using f1 fr[of x] by (cases "x = oldest") auto
  have down: "fields_of (fst st x) \<subseteq> fields_of (fst ?st1 x)" for x
    using f1 fr[of x] by (cases "x = oldest") auto
  have "fields_of (fst (write_records oldest (r # rs) st) oldest)
      = fields_of (fst ?st1 oldest) \<union> (\<Union>x\<in>set rs. fields_of (fst ?st1 x))"
    using Cons.IH[of ?st1] by simp
  also have "\<dots> = fields_of (fst st oldest) \<union> (\<Union>x\<in>set (r # rs). fields_of (fst st x))"
    using up down f1 by fastforce
  finally show ?case .
qed

lemma put_prop_fresh: "k \<notin> fst ` set ps \<Longrightarrow> put_prop ps k v = ps @ [(k, v)]"
  by (induction ps) auto

lemma mset_enum_order: "mset (enum_order ns) = mset ns"
  by (simp add: enum_order_def)

lemma distinct_enum_order: "distinct (enum_order ns) = distinct ns"
  using mset_enum_order by (metis mset_eq_imp_distinct_iff)

lemma own_keys_Nil: "own_keys ps = [] \<longleftrightarrow> ps = []"
proof -
  have "mset (own_keys ps) = mset (map fst ps)"
    by (simp add: own_keys_def mset_enum_order)
  then show ?thesis by (metis map_is_Nil_conv mset_zero_iff)
qed

subsection \<open>Values\<close>

lemma indexOf_range: "- 1 \<le> indexOf xs v \<and> (v \<in> set xs \<longrightarrow> 0 \<le> indexOf xs v)"
  by (induction xs) (auto simp: Let_def)

lemma indexOf_absent: "indexOf xs v = - 1 \<longleftrightarrow> v \<notin> set xs"
proof (induction xs)
  case Nil
  then show ?case by simp
next
  case (Cons w ws)
  from indexOf_range[of ws v] Cons show ?case by (auto simp: Let_def)
qed

lemma loose_eq_refl: "loose_eq v v"
  by (simp add: loose_eq_def)

lemma nullish_type: "nullish v \<longleftrightarrow> type_of v = TUndefined \<or> type_of v = TNull"
  by (cases v) (simp_all add: nullish_def)

lemma separable_apart:
  assumes "separable v w" and "v \<noteq> w"
  shows "\<not> loose_eq w v" and "to_prop v \<noteq> to_prop w"
proof -
  from assms have n: "to_prop v \<noteq> to_prop w" and t: "type_of v = type_of w \<or> nullish v \<noteq> nullish w"
    by (auto simp: separable_def)
  from n show "to_prop v \<noteq> to_prop w" .
  from t show "\<not> loose_eq w v"
  proof
    assume "type_of v = type_of w"
    with assms(2) show ?thesis by (auto simp: loose_eq_def)
  next
    assume d: "nullish v \<noteq> nullish w"
    then have "type_of w \<noteq> type_of v" by (auto simp: nullish_type)
    with d show ?thesis by (auto simp: loose_eq_def)
  qed
qed

lemma good_column_plain:
  assumes "plain_column vs" and "distinct vs"
  shows "good_column vs"
proof -
  from assms(1) have pn: "\<forall>v\<in>set vs. plain_name (to_prop v)"
    and sep: "\<forall>v\<in>set vs. \<forall>w\<in>set vs. separable v w"
    by (auto simp: plain_column_def list_all_iff)
  have "inj_on to_prop (set vs)"
  proof (rule inj_onI)
    fix v w assume "v \<in> set vs" "w \<in> set vs" "to_prop v = to_prop w"
    with sep separable_apart(2)[of v w] show "v = w" by blast
  qed
  with assms(2) have "distinct (map to_prop vs)" by (simp add: distinct_map)
  moreover from sep separable_apart(1) have "\<forall>v\<in>set vs. \<forall>w\<in>set vs. v \<noteq> w \<longrightarrow> \<not> loose_eq w v"
    by blast
  ultimately show ?thesis using pn by (simp add: good_column_def)
qed

lemma good_column_prefix: "good_column (xs @ ys) \<Longrightarrow> good_column xs"
  by (auto simp: good_column_def)

subsection \<open>The merge\<close>

lemma ordinary_fields_iff:
  "ordinary_fields ob \<longleftrightarrow> ''hasOwnProperty'' \<notin> fields_of ob \<and> ''__proto__'' \<notin> fields_of ob"
  by (force simp: ordinary_fields_def ordinary_field_def fields_of_def list_all_iff)

lemma merge_field_ordinary:
  assumes "ordinary_fields (fst st oldest)" and "ordinary_field f"
  shows "merge_field oldest next f st = Inr (write_field oldest next f st)"
  using assms
  by (simp add: merge_field_def write_field_def call_hasOwnProperty_def assign_prop_def Let_def
      ordinary_fields_iff has_own_fields ordinary_field_def)

lemma write_field_ordinary:
  assumes "ordinary_fields (fst st oldest)" and "ordinary_field f"
  shows "ordinary_fields (fst (write_field oldest next f st) oldest)"
  using assms by (auto simp: ordinary_fields_iff write_field_fields ordinary_field_def)

lemma merge_fields_ordinary:
  "ordinary_fields (fst st oldest) \<Longrightarrow> list_all ordinary_field fs \<Longrightarrow>
   merge_fields oldest next fs st = Inr (write_fields oldest next fs st)"
  by (induction fs arbitrary: st) (simp_all add: merge_field_ordinary write_field_ordinary)

lemma write_fields_ordinary:
  assumes "ordinary_fields (fst st oldest)" and "list_all ordinary_field fs"
  shows "ordinary_fields (fst (write_fields oldest next fs st) oldest)"
  using assms by (auto simp: ordinary_fields_iff write_fields_fields ordinary_field_def list_all_iff)

lemma own_keys_ordinary: "ordinary_fields ob \<Longrightarrow> list_all ordinary_field (own_keys ob)"
  by (auto simp: ordinary_fields_iff set_own_keys_fields ordinary_field_def list_all_iff)

lemma merge_records_ordinary:
  "ordinary_fields (fst st oldest) \<Longrightarrow> \<forall>r\<in>set rs. ordinary_fields (fst st r) \<Longrightarrow>
   merge_records oldest rs st = Inr (write_records oldest rs st)"
proof (induction rs arbitrary: st)
  case Nil
  then show ?case by simp
next
  case (Cons r rs)
  let ?st1 = "write_fields oldest r (own_keys (fst st r)) st"
  from Cons.prems have ks: "list_all ordinary_field (own_keys (fst st r))"
    by (simp add: own_keys_ordinary)
  with Cons.prems(1) have m: "merge_fields oldest r (own_keys (fst st r)) st = Inr ?st1"
    by (rule merge_fields_ordinary)
  from Cons.prems(1) ks have o: "ordinary_fields (fst ?st1 oldest)"
    by (rule write_fields_ordinary)
  have "\<forall>x\<in>set rs. ordinary_fields (fst ?st1 x)"
  proof
    fix x assume "x \<in> set rs"
    with Cons.prems(2) o show "ordinary_fields (fst ?st1 x)"
      by (cases "x = oldest") (simp_all add: write_fields_frame)
  qed
  with Cons.IH[OF o] m show ?case by simp
qed




lemma consolidateDuplicates_Cons:
  assumes "ordinary_group (fst st) (b # bs)"
  shows "consolidateDuplicates (b # bs) key st =
     Inr (b, write_records b (b # bs)
               (fst st, snd st @ [Consolidating (Suc (length bs)) key,
                                  Updating key (get_prop (fst st b) key) (get_prop (fst st b) ''entryDate'')]))"
proof -
  let ?st2 = "(fst st, snd st @ [Consolidating (Suc (length bs)) key,
                 Updating key (get_prop (fst st b) key) (get_prop (fst st b) ''entryDate'')])"
  from assms have "ordinary_fields (fst ?st2 b)" and "\<forall>r\<in>set (b # bs). ordinary_fields (fst ?st2 r)"
    by (simp_all add: ordinary_group_def list_all_iff)
  then have "merge_records b (b # bs) ?st2 = Inr (write_records b (b # bs) ?st2)"
    by (rule merge_records_ordinary)
  then show ?thesis
    by (simp add: consolidateDuplicates_def Let_def del: merge_records.simps write_records.simps)
qed

lemma merged_value_eq:
  assumes "ordinary_group (fst st) (b # bs)"
  shows "merged_value f (consolidateDuplicates (b # bs) key st) = Inr (last_value (fst st) b (b # bs) f)"
  by (simp add: merged_value_def merged_record_def consolidateDuplicates_Cons[OF assms]
      write_records_value last_value_def del: write_records.simps)

lemma merged_fields_eq:
  assumes "ordinary_group (fst st) (b # bs)"
  shows "merged_fields (consolidateDuplicates (b # bs) key st)
     = Inr (\<Union>x\<in>set (b # bs). fields_of (fst st x))"
  by (simp add: merged_fields_def merged_record_def consolidateDuplicates_Cons[OF assms]
      write_records_fields del: write_records.simps)

lemma survivor_and_cell_eq:
  assumes "ordinary_group (fst st) (b # bs)" and "x \<noteq> b"
  shows "survivor_and_cell x (consolidateDuplicates (b # bs) key st) = Inr (b, fst st x)"
  using assms(2)
  by (simp add: survivor_and_cell_def consolidateDuplicates_Cons[OF assms(1)] write_records_frame
      del: write_records.simps)

lemma last_value_agree:
  assumes "agree_on h b bs k"
  shows "last_value h b (b # bs) k = get_prop (h b) k"
proof (cases "writers h b (b # bs) k = []")
  case True
  then show ?thesis by (simp add: last_value_def)
next
  case False
  then have "last (writers h b (b # bs) k) \<in> set (writers h b (b # bs) k)" by simp
  then have "last (writers h b (b # bs) k) \<in> set bs" and "has_own (h (last (writers h b (b # bs) k))) k"
    by (auto simp: writers_def)
  with assms have "get_prop (h (last (writers h b (b # bs) k))) k = get_prop (h b) k"
    by (auto simp: agree_on_def list_all_iff)
  with False show ?thesis by (simp add: last_value_def)
qed

lemma last_write_writers:
  "last_write h oldest acc rs f =
     (if writers h oldest rs f = [] then acc else Some (get_prop (h (last (writers h oldest rs f))) f))"
  by (induction rs arbitrary: acc) (auto simp: writers_def)

lemma last_differing_value_eq: "last_differing_value h oldest dupes f = last_value h oldest dupes f"
  by (simp add: last_differing_value_def last_value_def last_write_writers get_prop_def)

subsection \<open>The index of records that are all different\<close>

lemma push_matches_append:
  "push_matches (xs @ ys) v u tbl =
     (case push_matches xs v u tbl of Inl e \<Rightarrow> Inl e | Inr t \<Rightarrow> push_matches ys v u t)"
  by (induction xs arbitrary: tbl) (auto split: sum.splits)

lemma push_matches_none: "\<forall>w\<in>set ws. \<not> loose_eq w v \<Longrightarrow> push_matches ws v u tbl = Inr tbl"
  by (induction ws) auto

lemma push_user_fresh:
  assumes "plain_name (to_prop v)" and "to_prop v \<notin> fst ` set tbl"
    and "''hasOwnProperty'' \<notin> fst ` set tbl"
  shows "push_user tbl v u = Inr (tbl @ [(to_prop v, [u])])"
proof -
  from assms(2) have "map_of tbl (to_prop v) = None"
    by (simp add: map_of_eq_None_iff)
  with assms show ?thesis
    by (simp add: push_user_def Let_def plain_name_def put_prop_fresh has_own_iff)
qed

lemma column_snoc: "column h (p @ [r]) k = column h p k @ [get_prop (h r) k]"
  by (simp add: column_def)

lemma singles_snoc: "singles h k (p @ [r]) = singles h k p @ [(to_prop (get_prop (h r) k), [r])]"
  by (simp add: singles_def)

lemma fst_singles: "map fst (singles h k p) = map to_prop (column h p k)"
  by (simp add: singles_def column_def)

lemma index_user_key_fresh:
  assumes kl: "map_of KL k = Some (k, column h p k)"
    and uh: "map_of UH k = Some (singles h k p)"
    and good: "good_column (column h (p @ [r]) k)"
  shows "index_user_key (h r) r k (KL, UH) =
     Inr (put_prop KL k (k, column h (p @ [r]) k), put_prop UH k (singles h k (p @ [r])))"
proof -
  let ?v = "get_prop (h r) k"
  from good have d: "distinct (map to_prop (column h p k) @ [to_prop ?v])"
    by (simp add: good_column_def column_snoc)
  then have fresh_name: "to_prop ?v \<notin> fst ` set (singles h k p)"
    using fst_singles[of h k p] by (metis distinct.simps(2) distinct1_rotate rotate1.simps(2) set_map)
  from d have notin: "?v \<notin> set (column h p k)" by auto
  from good notin have nomatch: "\<forall>w\<in>set (column h p k). \<not> loose_eq w ?v"
    by (auto simp: good_column_def column_snoc)
  from good have pn: "plain_name (to_prop ?v)"
    by (simp add: good_column_def column_snoc)
  from good have "\<forall>n\<in>set (map to_prop (column h p k)). plain_name n"
    by (simp add: good_column_def column_snoc)
  then have nohop: "''hasOwnProperty'' \<notin> fst ` set (singles h k p)"
    using fst_singles[of h k p] by (metis plain_name_def set_map)
  have "push_matches (column h p k @ [?v]) ?v r (singles h k p) = Inr (singles h k (p @ [r]))"
    using nomatch pn fresh_name nohop
    by (simp add: push_matches_append push_matches_none loose_eq_refl push_user_fresh singles_snoc)
  with kl uh notin show ?thesis
    by (simp add: index_user_key_def Let_def indexOf_absent column_snoc)
qed


lemma index_user_keys_fresh:
  assumes "distinct js"
    and "\<forall>k\<in>set js. map_of KL k = Some (k, column h p k) \<and> map_of UH k = Some (singles h k p)
           \<and> good_column (column h (p @ [r]) k)"
  shows "\<exists>KL' UH'. index_user_keys (h r) r js (KL, UH) = Inr (KL', UH')
     \<and> map fst KL' = map fst KL \<and> map fst UH' = map fst UH
     \<and> (\<forall>k\<in>set js. map_of KL' k = Some (k, column h (p @ [r]) k)
                      \<and> map_of UH' k = Some (singles h k (p @ [r])))
     \<and> (\<forall>k. k \<notin> set js \<longrightarrow> map_of KL' k = map_of KL k \<and> map_of UH' k = map_of UH k)"
  using assms
proof (induction js arbitrary: KL UH)
  case Nil
  then show ?case by simp
next
  case (Cons j js)
  let ?KL1 = "put_prop KL j (j, column h (p @ [r]) j)"
  let ?UH1 = "put_prop UH j (singles h j (p @ [r]))"
  from Cons.prems have j: "map_of KL j = Some (j, column h p j)" "map_of UH j = Some (singles h j p)"
    "good_column (column h (p @ [r]) j)" and jn: "j \<notin> set js" and djs: "distinct js"
    by auto
  have step: "index_user_key (h r) r j (KL, UH) = Inr (?KL1, ?UH1)"
    using j by (rule index_user_key_fresh)
  from j have inKL: "j \<in> fst ` set KL" and inUH: "j \<in> fst ` set UH"
    by (auto dest: map_of_SomeD intro: rev_image_eqI)
  have rest: "\<forall>k\<in>set js. map_of ?KL1 k = Some (k, column h p k) \<and> map_of ?UH1 k = Some (singles h k p)
           \<and> good_column (column h (p @ [r]) k)"
    using Cons.prems(2) jn by (auto simp: map_of_put_prop)
  from Cons.IH[OF djs rest] obtain KL' UH' where
    r1: "index_user_keys (h r) r js (?KL1, ?UH1) = Inr (KL', UH')"
    and r2: "map fst KL' = map fst ?KL1" "map fst UH' = map fst ?UH1"
    and r3: "\<forall>k\<in>set js. map_of KL' k = Some (k, column h (p @ [r]) k)
                      \<and> map_of UH' k = Some (singles h k (p @ [r]))"
    and r4: "\<forall>k. k \<notin> set js \<longrightarrow> map_of KL' k = map_of ?KL1 k \<and> map_of UH' k = map_of ?UH1 k"
    by blast
  have "index_user_keys (h r) r (j # js) (KL, UH) = Inr (KL', UH')"
    using step r1 by simp
  moreover have "map fst KL' = map fst KL" "map fst UH' = map fst UH"
    using r2 inKL inUH by (simp_all add: map_fst_put_prop)
  moreover have "\<forall>k\<in>set (j # js). map_of KL' k = Some (k, column h (p @ [r]) k)
                      \<and> map_of UH' k = Some (singles h k (p @ [r]))"
    using r3 r4 jn by (auto simp: map_of_put_prop)
  moreover have "\<forall>k. k \<notin> set (j # js) \<longrightarrow> map_of KL' k = map_of KL k \<and> map_of UH' k = map_of UH k"
    using r4 by (auto simp: map_of_put_prop)
  ultimately show ?case by blast
qed

lemma index_users_fresh:
  assumes "index_inv h K p kh" and "distinct K"
    and "\<forall>k\<in>set K. good_column (column h (p @ rs) k)"
  shows "\<exists>kh'. index_users h (map Some rs) kh = Inr kh' \<and> index_inv h K (p @ rs) kh'"
  using assms
proof (induction rs arbitrary: p kh)
  case Nil
  then show ?case by simp
next
  case (Cons r rs)
  obtain KL UH where kh: "kh = (KL, UH)" by (cases kh)
  from Cons.prems(1) kh have K: "map fst KL = K" "map fst UH = K"
    and ent: "\<forall>k\<in>set K. map_of KL k = Some (k, column h p k) \<and> map_of UH k = Some (singles h k p)"
    by (auto simp: index_inv_def)
  have oks: "set (own_keys KL) = set K" "distinct (own_keys KL)"
    using K Cons.prems(2) by (auto simp: own_keys_def set_enum_order distinct_enum_order)
  have g1: "\<forall>k\<in>set K. good_column (column h (p @ [r]) k)"
  proof
    fix k assume "k \<in> set K"
    with Cons.prems(3) have "good_column (column h ((p @ [r]) @ rs) k)" by simp
    then have "good_column (column h (p @ [r]) k @ column h rs k)" by (simp add: column_def)
    then show "good_column (column h (p @ [r]) k)" by (rule good_column_prefix)
  qed
  have "\<forall>k\<in>set (own_keys KL). map_of KL k = Some (k, column h p k) \<and> map_of UH k = Some (singles h k p)
           \<and> good_column (column h (p @ [r]) k)"
    using ent g1 oks by simp
  from index_user_keys_fresh[OF oks(2) this] obtain KL' UH' where
    s1: "index_user_keys (h r) r (own_keys KL) (KL, UH) = Inr (KL', UH')"
    and s2: "map fst KL' = map fst KL" "map fst UH' = map fst UH"
    and s3: "\<forall>k\<in>set (own_keys KL). map_of KL' k = Some (k, column h (p @ [r]) k)
                      \<and> map_of UH' k = Some (singles h k (p @ [r]))"
    by blast
  have inv1: "index_inv h K (p @ [r]) (KL', UH')"
    using s2 s3 K oks by (simp add: index_inv_def)
  have g2: "\<forall>k\<in>set K. good_column (column h ((p @ [r]) @ rs) k)"
    using Cons.prems(3) by simp
  from Cons.IH[OF inv1 Cons.prems(2) g2] obtain kh' where
    "index_users h (map Some rs) (KL', UH') = Inr kh'" "index_inv h K ((p @ [r]) @ rs) kh'"
    by blast
  then show ?case using s1 kh by simp
qed

lemma add_keys_set: "set (add_keys K ks) = set K \<union> set ks"
  by (induction ks arbitrary: K) auto

lemma add_keys_distinct: "distinct K \<Longrightarrow> distinct (add_keys K ks)"
  by (induction ks arbitrary: K) auto

lemma generateKeyList_loop_fst: "map fst (generateKeyList_loop ks KL) = add_keys (map fst KL) ks"
  by (induction ks arbitrary: KL) (simp_all add: map_fst_put_prop)

lemma initUserHash_loop_fst: "map fst (initUserHash_loop ks UH) = add_keys (map fst UH) ks"
  by (induction ks arbitrary: UH) (simp_all add: map_fst_put_prop)

lemma generateKeyList_loop_map_of:
  "map_of (generateKeyList_loop ks KL) k = (if k \<in> set ks then Some (k, []) else map_of KL k)"
  by (induction ks arbitrary: KL) (auto simp: map_of_put_prop)

lemma initUserHash_loop_map_of:
  "map_of (initUserHash_loop ks UH) k = (if k \<in> set ks then Some [] else map_of UH k)"
  by (induction ks arbitrary: UH) (auto simp: map_of_put_prop)

lemma index_inv_init:
  "index_inv h (add_keys [] keys) [] (generateKeyList keys, initUserHash keys)"
  by (simp add: index_inv_def generateKeyList_def initUserHash_def generateKeyList_loop_fst
      initUserHash_loop_fst generateKeyList_loop_map_of initUserHash_loop_map_of add_keys_set
      column_def singles_def)

lemma transform_fresh:
  assumes "\<forall>k\<in>set keys. good_column (column h rs k)"
  shows "\<exists>uh. transformUsersToHashByKeys (map Some rs) keys h = Inr uh
     \<and> map fst uh = add_keys [] keys
     \<and> (\<forall>k\<in>set keys. map_of uh k = Some (singles h k rs))"
proof -
  have d: "distinct (add_keys [] keys)" by (simp add: add_keys_distinct)
  have g: "\<forall>k\<in>set (add_keys [] keys). good_column (column h ([] @ rs) k)"
    using assms by (simp add: add_keys_set)
  from index_users_fresh[OF index_inv_init d g] obtain kh' where
    "index_users h (map Some rs) (generateKeyList keys, initUserHash keys) = Inr kh'"
    "index_inv h (add_keys [] keys) rs kh'"
    by auto
  then show ?thesis
    by (auto simp: transformUsersToHashByKeys_def index_inv_def add_keys_set)
qed


subsection \<open>The candidate list\<close>


lemma collect_buckets_noop:
  "\<forall>k\<in>set ks. length (bucket_at tbl k) \<le> 1 \<Longrightarrow>
   collect_buckets tbl key ks cs = Inr (fst cs @ map (\<lambda>k. bucket_head (bucket_at tbl k)) ks, snd cs)"
proof (induction ks arbitrary: cs)
  case Nil
  show ?case by (cases cs) simp
next
  case (Cons k ks)
  then have le: "length (bucket_at tbl k) \<le> 1" and rest: "\<forall>k\<in>set ks. length (bucket_at tbl k) \<le> 1"
    by auto
  from le Cons.IH[OF rest, of "(fst cs @ [bucket_head (bucket_at tbl k)], snd cs)"] show ?case
    by (simp add: bucket_at_def bucket_head_def)
qed


lemma collect_keys_noop:
  "\<forall>key\<in>set keys. \<forall>k. length (bucket_at (table_of uh key) k) \<le> 1 \<Longrightarrow>
   collect_keys uh keys cs =
     Inr (if keys = [] then fst cs else contributions (table_of uh (last keys)), snd cs)"
proof (induction keys arbitrary: cs)
  case Nil
  show ?case by (cases cs) simp
next
  case (Cons key keys)
  then have "\<forall>k\<in>set (own_keys (table_of uh key)). length (bucket_at (table_of uh key) k) \<le> 1"
    and rest: "\<forall>key\<in>set keys. \<forall>k. length (bucket_at (table_of uh key) k) \<le> 1"
    by auto
  from collect_buckets_noop[OF this(1), of key "([], snd cs)"]
  have b: "collect_buckets (table_of uh key) key (own_keys (table_of uh key)) ([], snd cs)
      = Inr (contributions (table_of uh key), snd cs)"
    by (simp add: contributions_def)
  from Cons.IH[OF rest, of "(contributions (table_of uh key), snd cs)"] b show ?case
    by (auto simp: table_of_def)
qed


lemma collect_rounds_noop:
  assumes "\<forall>key\<in>set keys. \<forall>k. length (bucket_at (table_of uh key) k) \<le> 1"
  shows "collect_rounds uh keys rounds cs =
     Inr (if rounds = [] \<or> keys = [] then fst cs else contributions (table_of uh (last keys)), snd cs)"
proof (induction rounds arbitrary: cs)
  case Nil
  show ?case by (cases cs) simp
next
  case (Cons i rounds)
  from collect_keys_noop[OF assms, of cs]
  have k: "collect_keys uh keys cs = Inr (if keys = [] then fst cs else contributions (table_of uh (last keys)), snd cs)" .
  from Cons.IH[of "(if keys = [] then fst cs else contributions (table_of uh (last keys)), snd cs)"] k
  show ?case by auto
qed


lemma getConsolidatedUserList_noop:
  assumes "\<forall>key\<in>set keys. \<forall>k. length (bucket_at (table_of uh key) k) \<le> 1"
  shows "getConsolidatedUserList uh keys st = Inr (last_key_contributions uh keys, st)"
  using collect_rounds_noop[OF assms, of "own_keys uh" "([], st)"]
  by (auto simp: getConsolidatedUserList_def last_key_contributions_def own_keys_Nil)



subsection \<open>The scan\<close>

lemma refs_of_Some: "refs_of (map Some rs) = rs"
  by (induction rs) (simp_all add: refs_of_def)

lemma scan_vals_append: "scan_vals (xs @ ys) ld = scan_vals ys (scan_vals xs ld)"
  by (induction xs arbitrary: ld) auto

lemma scan_keys_vals: "scan_keys h (Some u) keys ld = Inr (scan_vals (map (get_prop (h u)) keys) ld)"
  by (induction keys arbitrary: ld) (auto simp: Let_def)

lemma scan_users_vals: "scan_users h (map Some rs) keys ld = Inr (scan_vals (key_values h rs keys) ld)"
  by (induction rs arbitrary: ld) (simp_all add: key_values_def scan_keys_vals scan_vals_append)

lemma scan_vals_grows: "\<exists>e. snd (scan_vals vs ld) = snd ld @ e"
  by (induction vs arbitrary: ld) (auto, metis append.assoc)

lemma scan_vals_clean:
  "snd (scan_vals vs ld) = [] \<longleftrightarrow> snd ld = [] \<and> distinct vs \<and> set vs \<inter> set (fst ld) = {}"
proof (induction vs arbitrary: ld)
  case Nil
  then show ?case by simp
next
  case (Cons v vs)
  show ?case
  proof (cases "v \<in> set (fst ld)")
    case True
    from scan_vals_grows[of vs "(fst ld, snd ld @ [v])"]
    have "snd (scan_vals vs (fst ld, snd ld @ [v])) \<noteq> []" by auto
    with True show ?thesis by (simp add: indexOf_absent)
  next
    case False
    with Cons.IH[of "(fst ld @ [v], snd ld)"] show ?thesis
      by (auto simp: indexOf_absent)
  qed
qed

lemma getListOfDuplicateValues_Some:
  "getListOfDuplicateValues (map Some rs) keys h = Inr (snd (scan_vals (key_values h rs keys) ([], [])))"
  by (simp add: getListOfDuplicateValues_def scan_users_vals)

lemma getListOfDuplicateValues_clean:
  "getListOfDuplicateValues (map Some rs) keys h = Inr [] \<longleftrightarrow> distinct (key_values h rs keys)"
  by (simp add: getListOfDuplicateValues_Some scan_vals_clean)

lemma scan_users_all_Some:
  "keys \<noteq> [] \<Longrightarrow> scan_users h users keys ld = Inr ld' \<Longrightarrow> \<exists>rs. users = map Some rs"
proof (induction users arbitrary: ld)
  case Nil
  then show ?case by simp
next
  case (Cons u users)
  from Cons.prems obtain ld1 where s: "scan_keys h u keys ld = Inr ld1" "scan_users h users keys ld1 = Inr ld'"
    by (auto split: sum.splits)
  from s(1) Cons.prems(1) obtain r where u: "u = Some r"
    by (cases u; cases keys) auto
  from Cons.IH[OF Cons.prems(1) s(2)] obtain rs where "users = map Some rs" by blast
  with u have "u # users = map Some (r # rs)" by simp
  then show ?case by (rule exI[of _ "r # rs"])
qed

lemma scan_all_Some:
  assumes "keys \<noteq> []" and "getListOfDuplicateValues users keys h = Inr d"
  shows "\<exists>rs. users = map Some rs"
proof -
  from assms(2) obtain ld' where "scan_users h users keys ([], []) = Inr ld'"
    by (auto simp: getListOfDuplicateValues_def split: sum.splits)
  with assms(1) show ?thesis by (rule scan_users_all_Some)
qed

lemma column_subset: "k \<in> set keys \<Longrightarrow> set (column h rs k) \<subseteq> set (key_values h rs keys)"
  by (auto simp: column_def key_values_def)

lemma distinct_column:
  "distinct (key_values h rs keys) \<Longrightarrow> k \<in> set keys \<Longrightarrow> distinct (column h rs k)"
proof (induction rs)
  case Nil
  then show ?case by (simp add: column_def)
next
  case (Cons r rs)
  from Cons.prems(1) have d: "distinct (key_values h rs keys)"
    and dis: "set (map (get_prop (h r)) keys) \<inter> set (key_values h rs keys) = {}"
    by (simp_all add: key_values_def)
  from Cons.prems(2) have "get_prop (h r) k \<in> set (map (get_prop (h r)) keys)" by simp
  with dis column_subset[OF Cons.prems(2), of h rs] have "get_prop (h r) k \<notin> set (column h rs k)"
    by blast
  with Cons.IH[OF d Cons.prems(2)] show ?case by (simp add: column_def)
qed

lemma mset_key_values:
  "mset rs' = mset rs \<Longrightarrow> mset (key_values h rs' keys) = mset (key_values h rs keys)"
proof -
  assume a: "mset rs' = mset rs"
  have "mset (key_values h xs keys) = sum_mset (image_mset (\<lambda>r. mset (map (get_prop (h r)) keys)) (mset xs))" for xs
    by (induction xs) (simp_all add: key_values_def)
  with a show ?thesis by simp
qed

lemma good_columns:
  assumes "plain_records h rs keys" and "distinct (key_values h rs keys)"
  shows "\<forall>k\<in>set keys. good_column (column h rs k)"
proof
  fix k assume k: "k \<in> set keys"
  with assms(1) have "plain_column (column h rs k)"
    by (simp add: plain_records_def list_all_iff)
  moreover from assms(2) k have "distinct (column h rs k)" by (rule distinct_column)
  ultimately show "good_column (column h rs k)" by (rule good_column_plain)
qed

subsection \<open>A pass without duplicates\<close>

lemma bucket_at_singles:
  assumes "distinct (map to_prop (column h rs k))" and "r \<in> set rs"
  shows "bucket_at (singles h k rs) (to_prop (get_prop (h r) k)) = [r]"
proof -
  from assms(1) have "distinct (map fst (singles h k rs))" by (simp add: fst_singles)
  moreover from assms(2) have "(to_prop (get_prop (h r) k), [r]) \<in> set (singles h k rs)"
    by (auto simp: singles_def)
  ultimately have "map_of (singles h k rs) (to_prop (get_prop (h r) k)) = Some [r]"
    by (rule map_of_is_SomeI)
  then show ?thesis by (simp add: bucket_at_def)
qed

lemma bucket_at_singles_le: "length (bucket_at (singles h k rs) n) \<le> 1"
proof (cases "map_of (singles h k rs) n")
  case None
  then show ?thesis by (simp add: bucket_at_def)
next
  case (Some b)
  then have "(n, b) \<in> set (singles h k rs)" by (rule map_of_SomeD)
  then have "length b = 1" by (auto simp: singles_def)
  with Some show ?thesis by (simp add: bucket_at_def)
qed

lemma map_bucket_names:
  assumes "distinct (map to_prop (column h rs k))"
  shows "map (\<lambda>n. hd (bucket_at (singles h k rs) n)) (map to_prop (column h rs k)) = rs"
proof -
  have "map (\<lambda>n. hd (bucket_at (singles h k rs) n)) (map to_prop (column h rs k))
      = map (\<lambda>r. hd (bucket_at (singles h k rs) (to_prop (get_prop (h r) k)))) rs"
    by (simp add: column_def comp_def)
  also have "\<dots> = map (\<lambda>r. r) rs"
    by (rule map_cong) (simp_all add: bucket_at_singles[OF assms])
  finally show ?thesis by simp
qed

lemma mset_pass_order:
  assumes "distinct (map to_prop (column h rs k))"
  shows "mset (pass_order h k rs) = mset rs"
proof -
  have "mset (pass_order h k rs)
      = image_mset (\<lambda>n. hd (bucket_at (singles h k rs) n)) (mset (enum_order (map to_prop (column h rs k))))"
    by (simp add: pass_order_def)
  also have "\<dots> = mset (map (\<lambda>n. hd (bucket_at (singles h k rs) n)) (map to_prop (column h rs k)))"
    by (simp only: mset_enum_order mset_map)
  finally show ?thesis by (simp only: map_bucket_names[OF assms])
qed

lemma contributions_singles:
  assumes "distinct (map to_prop (column h rs k))"
  shows "contributions (singles h k rs) = map Some (pass_order h k rs)"
proof -
  have "bucket_head (bucket_at (singles h k rs) n) = Some (hd (bucket_at (singles h k rs) n))"
    if "n \<in> set (map to_prop (column h rs k))" for n
  proof -
    from that obtain r where "r \<in> set rs" "n = to_prop (get_prop (h r) k)"
      by (auto simp: column_def)
    with bucket_at_singles[OF assms] show ?thesis by (simp add: bucket_head_def)
  qed
  then show ?thesis
    by (simp add: contributions_def pass_order_def own_keys_def fst_singles set_enum_order)
qed


lemma noop_pass:
  assumes good: "\<forall>k\<in>set keys. good_column (column h rs k)" and ne: "keys \<noteq> []"
  shows "\<exists>uh. transformUsersToHashByKeys (map Some rs) keys h = Inr uh
     \<and> getConsolidatedUserList uh keys (h, lg) = Inr (map Some (pass_order h (last keys) rs), (h, lg))"
proof -
  from transform_fresh[OF good] obtain uh where
    t: "transformUsersToHashByKeys (map Some rs) keys h = Inr uh"
    and f: "map fst uh = add_keys [] keys"
    and e: "\<forall>k\<in>set keys. map_of uh k = Some (singles h k rs)"
    by blast
  from e have tab: "\<And>k. k \<in> set keys \<Longrightarrow> table_of uh k = singles h k rs"
    by (simp add: table_of_def)
  have small: "\<forall>key\<in>set keys. \<forall>k. length (bucket_at (table_of uh key) k) \<le> 1"
  proof (intro ballI allI)
    fix key k assume "key \<in> set keys"
    then have "table_of uh key = singles h key rs" by (rule tab)
    then show "length (bucket_at (table_of uh key) k) \<le> 1"
      by (simp only: bucket_at_singles_le)
  qed
  from f ne have "set (map fst uh) \<noteq> {}" by (simp add: add_keys_set del: set_map)
  then have uhne: "uh \<noteq> []" by auto
  from ne have lk: "last keys \<in> set keys" by simp
  from good lk have "distinct (map to_prop (column h rs (last keys)))"
    by (simp add: good_column_def)
  then have "contributions (singles h (last keys) rs) = map Some (pass_order h (last keys) rs)"
    by (rule contributions_singles)
  with tab[OF lk] uhne ne
  have "last_key_contributions uh keys = map Some (pass_order h (last keys) rs)"
    by (simp add: last_key_contributions_def)
  with getConsolidatedUserList_noop[OF small, of "(h, lg)"] t show ?thesis by simp
qed

lemma getResolveDuplicates_keys_Nil: "getResolveDuplicates users [] st = Some (Inr ([], st))"
proof -
  have i: "index_users h users ([], []) = Inr ([], [])" for h
  proof (induction users)
    case Nil
    show ?case by simp
  next
    case (Cons u users)
    then show ?case by (cases u) (simp_all add: own_keys_def enum_order_def)
  qed
  have t: "transformUsersToHashByKeys users [] (fst st) = Inr []"
    by (simp add: transformUsersToHashByKeys_def generateKeyList_def initUserHash_def i)
  have c: "getConsolidatedUserList [] [] st = Inr ([], st)"
    by (simp add: getConsolidatedUserList_def own_keys_def enum_order_def)
  have s: "getListOfDuplicateValues [] [] (fst st) = Inr []"
    by (simp add: getListOfDuplicateValues_def)
  show ?thesis
    by (subst getResolveDuplicates.simps) (simp add: t c s)
qed

lemma getResolveDuplicates_one_pass:
  assumes "transformUsersToHashByKeys users keys (fst st) = Inr uh"
    and "getConsolidatedUserList uh keys st = Inr (cs, st')"
    and "getListOfDuplicateValues cs keys (fst st') = Inr []"
  shows "getResolveDuplicates users keys st = Some (Inr (cs, st'))"
  by (subst getResolveDuplicates.simps) (simp add: assms)

lemma getResolveDuplicates_clean_aux:
  assumes "getResolveDuplicates users keys st = Some res"
  shows "\<forall>cs s. res = Inr (cs, s) \<longrightarrow> getListOfDuplicateValues cs keys (fst s) = Inr []"
  using assms
  apply (rule getResolveDuplicates.raw_induct[rotated, where P = "\<lambda>users keys st res.
           \<forall>cs s. res = Inr (cs, s) \<longrightarrow> getListOfDuplicateValues cs keys (fst s) = Inr []"])
  apply (auto split: sum.splits if_splits)
  done

lemma getResolveDuplicates_clean:
  assumes "getResolveDuplicates users keys st = Some (Inr (out, st'))"
  shows "getListOfDuplicateValues out keys (fst st') = Inr []"
  using getResolveDuplicates_clean_aux[OF assms] by (cases st') simp

lemma noop_run_perm:
  assumes plain: "plain_records h rs keys" and clean: "distinct (key_values h rs keys)"
    and ne: "keys \<noteq> []"
  shows "getResolveDuplicates (map Some rs) keys (h, lg)
      = Some (Inr (map Some (pass_order h (last keys) rs), (h, lg)))"
    and "mset (pass_order h (last keys) rs) = mset rs"
    and "distinct (key_values h (pass_order h (last keys) rs) keys)"
proof -
  from noop_pass[OF good_columns[OF plain clean] ne, of lg] obtain uh where
    t: "transformUsersToHashByKeys (map Some rs) keys h = Inr uh"
    and c: "getConsolidatedUserList uh keys (h, lg) = Inr (map Some (pass_order h (last keys) rs), (h, lg))"
    by blast
  from good_columns[OF plain clean] ne have "distinct (map to_prop (column h rs (last keys)))"
    by (simp add: good_column_def)
  then show m: "mset (pass_order h (last keys) rs) = mset rs" by (rule mset_pass_order)
  from mset_eq_imp_distinct_iff[OF mset_key_values[OF m, of h keys]] clean
  show d: "distinct (key_values h (pass_order h (last keys) rs) keys)"
    by simp
  then have "getListOfDuplicateValues (map Some (pass_order h (last keys) rs)) keys h = Inr []"
    by (simp add: getListOfDuplicateValues_clean)
  with t c show "getResolveDuplicates (map Some rs) keys (h, lg)
      = Some (Inr (map Some (pass_order h (last keys) rs), (h, lg)))"
    by (intro getResolveDuplicates_one_pass[where uh = uh]) simp_all
qed

lemma noop_run:
  assumes "keys \<noteq> []" and "distinct (key_values h rs keys)" and "plain_records h rs keys"
    and "enum_order (map to_prop (column h rs (last keys))) = map to_prop (column h rs (last keys))"
  shows "getResolveDuplicates (map Some rs) keys (h, lg) = Some (Inr (map Some rs, (h, lg)))"
proof -
  from good_columns[OF assms(3,2)] assms(1) have d: "distinct (map to_prop (column h rs (last keys)))"
    by (simp add: good_column_def)
  have "pass_order h (last keys) rs = rs"
    unfolding pass_order_def assms(4) using d by (rule map_bucket_names)
  with noop_run_perm(1)[OF assms(3,2,1), of lg] show ?thesis by simp
qed

section \<open>The properties\<close>

subsection \<open>The candidate list of a pass\<close>




subsection \<open>The scan for remaining duplicates\<close>

text \<open>C2. The scan keeps one list of seen values for all keys. On two records in which
  the \<^verbatim>\<open>_id\<close> of the first is the \<^verbatim>\<open>email\<close> of the second, and no value occurs
  twice under one key, it reports that value as still duplicated.\<close>

theorem scan_mixes_keys:
  "getListOfDuplicateValues (load_users cross_key_leads) KEYS_WITH_DUPES (load_heap cross_key_leads)
     = Inr [JStr ''x'']
   \<and> no_duplicate_groups (load_heap cross_key_leads) (load_users cross_key_leads) KEYS_WITH_DUPES"
  by code_simp

subsection \<open>The merge\<close>

text \<open>C3, as the code has it. The merge copies every field of every group member onto
  the first record of the bucket, the identifying keys included. For a group whose
  records have ordinary fields and for an ordinary key \<open>k\<close>, the merged record's value
  for \<open>k\<close> is therefore the value of the last member in bucket order, other than the
  surviving object, that defines \<open>k\<close> (the chronologically newest such member when the
  bucket is ordered oldest first); it is the first record's value when every other
  member that defines \<open>k\<close> holds that same value.\<close>

theorem merge_key_values:
  assumes "ordinary_group (fst st) (b # bs)" and "ordinary_keys [k]"
  shows "merged_value k (consolidateDuplicates (b # bs) key st) = Inr (last_value (fst st) b (b # bs) k)
   \<and> (agree_on (fst st) b bs k \<longrightarrow>
        merged_value k (consolidateDuplicates (b # bs) key st) = Inr (get_prop (fst st b) k))"
  by (simp add: merged_value_eq[OF assms(1)] last_value_agree)

theorem merge_key_values_witness:
  "merged_value ''_id'' (consolidateDuplicates [0, 1] ''_id'' (load_heap group_leads, [])) = Inr (JNum 1)"
proof -
  have g: "ordinary_group (fst (load_heap group_leads, [])) [0, 1]"
    by code_simp
  have k: "ordinary_keys [''_id'']"
    by code_simp
  have a: "agree_on (fst (load_heap group_leads, [])) 0 [1] ''_id''"
    by code_simp
  have v: "get_prop (fst (load_heap group_leads, []) 0) ''_id'' = JNum 1"
    by code_simp
  from merge_key_values[OF g k, of "''_id''", THEN conjunct2, THEN mp, OF a]
  show ?thesis unfolding v .
qed

text \<open>C3, as the specification states it, fails: merging two records with the same
  \<^verbatim>\<open>_id\<close> and different addresses leaves the address of the newer record, not that of
  the oldest.\<close>

theorem merge_replaces_email:
  "merged_value ''email'' (consolidateDuplicates [0, 1] ''_id'' (load_heap group_leads, []))
     = Inr (JStr ''new@x.com'')
   \<and> get_prop (load_heap group_leads 0) ''email'' = JStr ''old@x.com''"
  by code_simp

text \<open>C4. The merge adds a field that the surviving record lacks by assigning to it. For
  a field named \<^verbatim>\<open>__proto__\<close> the assignment reaches the prototype accessor, which
  ignores the number, and no field is created. The bucket of two records with the same
  \<^verbatim>\<open>_id\<close>, ordered oldest first, whose second record has such a field, merges to a
  record without it: the fields of the merged record are not the fields of all group
  members, and the complete run returns that record.\<close>

theorem merge_drops_proto_field:
  "merged_record (consolidateDuplicates [0, 1] ''_id'' (load_heap proto_leads, []))
     = Inr [(''_id'', JNum 1), (''email'', JStr ''a@x.com''), (''entryDate'', JStr ''2021-01-01'')]
   \<and> map_of (load_heap proto_leads 1) ''__proto__'' = Some (JNum 5)
   \<and> outcome_records (resolve proto_leads KEYS_WITH_DUPES)
     = Some (Inr [Some [(''_id'', JNum 1), (''email'', JStr ''a@x.com''),
                        (''entryDate'', JStr ''2021-01-01'')]])"
  by code_simp

text \<open>C10. The merge asks the surviving record for its method \<^verbatim>\<open>hasOwnProperty\<close>. In a
  bucket of two records whose first record has a field of that name, the field stands in
  the method's place: the first call fails with a \<open>TypeError\<close>, the merge returns no
  object, and so does the complete run.\<close>

theorem merge_fails_on_shadowed_method:
  "merged_record (consolidateDuplicates [0, 1] ''_id'' (load_heap shadow_leads, [])) = Inl TypeError
   \<and> resolve shadow_leads KEYS_WITH_DUPES = Some (Inl TypeError)"
  by code_simp

subsection \<open>The index\<close>

text \<open>C5. The list of seen values is kept with \<^verbatim>\<open>indexOf\<close>, which compares like
  \<^verbatim>\<open>===\<close>, and walked with \<^verbatim>\<open>==\<close>. Of two records with the \<^verbatim>\<open>_id\<close> \<^verbatim>\<open>"1"\<close> and
  \<^verbatim>\<open>1\<close>, the second is \<^verbatim>\<open>==\<close> to both listed values and is pushed twice: the
  buckets of \<^verbatim>\<open>_id\<close> hold three records for an input of two.\<close>

theorem index_pushes_record_twice:
  "index_of_leads mixed_id_leads KEYS_WITH_DUPES
     = Inr [(''_id'', [(''1'', [0, 1, 1])]), (''email'', [(''a@x.com'', [0]), (''b@x.com'', [1])])]
   \<and> index_total mixed_id_leads KEYS_WITH_DUPES ''_id'' = Inr 3
   \<and> length mixed_id_leads = 2"
  by code_simp

text \<open>C6. Buckets are filled in input order and never sorted. For the records of
  Scenario A given newest first, the bucket handed to the merge starts with the newer
  record, and the run returns the name and the entry date of the older one.\<close>

theorem index_keeps_input_order:
  "index_of_leads newest_first_leads KEYS_WITH_DUPES
     = Inr [(''_id'', [(''1'', [0, 1])]), (''email'', [(''a@x.com'', [0, 1])])]
   \<and> get_prop (load_heap newest_first_leads 0) ''entryDate'' = JStr ''2021-01-01''
   \<and> get_prop (load_heap newest_first_leads 1) ''entryDate'' = JStr ''2020-01-01''
   \<and> outcome_records (resolve newest_first_leads KEYS_WITH_DUPES)
     = Some (Inr [Some [(''_id'', JNum 1), (''email'', JStr ''a@x.com''),
                        (''entryDate'', JStr ''2020-01-01''), (''name'', JStr ''Al'')]])"
  by code_simp

subsection \<open>Complete runs\<close>

text \<open>C8. Scenario A: two records with the same \<^verbatim>\<open>_id\<close> and \<^verbatim>\<open>email\<close>; the program
  returns one record, which carries the entry date and the name of the newer one.\<close>

theorem scenario_A:
  "outcome_records (resolve scenario_A_leads KEYS_WITH_DUPES)
   = Some (Inr [Some [(''_id'', JNum 1), (''email'', JStr ''a@x.com''),
                      (''entryDate'', JStr ''2021-01-01''), (''name'', JStr ''Alice'')]])"
  by code_simp

text \<open>C9, as the code has it. Take ordinary keys and records among whose identifying
  values none occurs twice, under the same key or under two keys, whose columns are
  plain, and whose bucket names under the last key enumerate in the order of the
  records. The run then returns the same objects in the same order after one pass, with
  the heap and the log as they were: no record is changed and no line is written.\<close>

theorem resolve_without_duplicates:
  assumes "ordinary_keys keys" and "keys \<noteq> []"
    and "distinct (key_values h rs keys)" and "plain_records h rs keys"
    and "enum_order (map to_prop (column h rs (last keys))) = map to_prop (column h rs (last keys))"
  shows "getResolveDuplicates (map Some rs) keys (h, lg) = Some (Inr (map Some rs, (h, lg)))"
  using assms(2-5) by (rule noop_run)

theorem resolve_without_duplicates_witness:
  "getResolveDuplicates [Some 0, Some 1] KEYS_WITH_DUPES (load_heap two_leads, [])
   = Some (Inr ([Some 0, Some 1], (load_heap two_leads, [])))"
proof -
  have 0: "ordinary_keys KEYS_WITH_DUPES" by code_simp
  have 1: "KEYS_WITH_DUPES \<noteq> []" by code_simp
  have 2: "distinct (key_values (load_heap two_leads) [0, 1] KEYS_WITH_DUPES)" by code_simp
  have 3: "plain_records (load_heap two_leads) [0, 1] KEYS_WITH_DUPES" by code_simp
  have 4: "enum_order (map to_prop (column (load_heap two_leads) [0, 1] (last KEYS_WITH_DUPES)))
      = map to_prop (column (load_heap two_leads) [0, 1] (last KEYS_WITH_DUPES))" by code_simp
  from resolve_without_duplicates[OF 0 1 2 3 4, of "[]"] show ?thesis by simp
qed

text \<open>C9, as the specification states it, fails: bucket names that are array indices are
  enumerated in ascending order, whatever the order of the records. Two records without
  duplicates whose addresses are the numbers 2 and 1 come back in the opposite order.\<close>

theorem resolve_reorders:
  "resolve numbered_leads KEYS_WITH_DUPES
   = Some (Inr ([Some [(''_id'', JStr ''b''), (''email'', JNum 1), (''entryDate'', JStr ''2021-01-01'')],
                 Some [(''_id'', JStr ''a''), (''email'', JNum 2), (''entryDate'', JStr ''2020-01-01'')]],
                []))"
  by code_simp

text \<open>C7. The index names buckets by the string of a value and fills them with
  \<^verbatim>\<open>==\<close>, the scan compares values with \<^verbatim>\<open>===\<close>. A run on two pairs of equal
  records, with \<^verbatim>\<open>_id\<close> 1 and \<^verbatim>\<open>"1"\<close>, returns after one pass two records that the
  scan tells apart; a second run on them puts both into the bucket \<^verbatim>\<open>"1"\<close>, merges them,
  takes the recursion and returns one record. The list that a run returns is not left
  unchanged by the next run, which needs two passes.\<close>

theorem rerun_takes_two_passes:
  "outcome_records (resolve mixed_pairs_leads KEYS_WITH_DUPES)
     = Some (Inr [Some [(''_id'', JNum 1), (''email'', JStr ''x@x.com''), (''entryDate'', JStr ''2020-01-01'')],
                  Some [(''_id'', JStr ''1''), (''email'', JStr ''y@x.com''), (''entryDate'', JStr ''2021-01-01'')]])
   \<and> run_passes (resolve mixed_pairs_leads KEYS_WITH_DUPES) = Some (Inr 1)
   \<and> run_passes (rerun mixed_pairs_leads KEYS_WITH_DUPES) = Some (Inr 2)
   \<and> outcome_records (rerun mixed_pairs_leads KEYS_WITH_DUPES)
     = Some (Inr [Some [(''_id'', JStr ''1''), (''email'', JStr ''y@x.com''), (''entryDate'', JStr ''2021-01-01'')]])"
  by code_simp

end
